theory Spec2Isabelle
  imports Complex_Main "HOL-Library.Multiset"
begin

section \<open>Data model\<close>

text \<open>
  The module \<open>circlify.py\<close> packs circles whose areas follow a mapping of weights and
  encloses them. Python's floats are modelled as the real numbers: \<open>+\<close>, \<open>-\<close>, \<open>*\<close>
  are exact, \<open>math.sqrt\<close> of a negative number raises \<open>ValueError\<close> and a division by
  zero raises \<open>ZeroDivisionError\<close>. A \<open>Circle\<close> is the named tuple \<open>(x, y, r)\<close>; its
  equality is equality of the three fields.

  The model keeps the control flow, the order of evaluation, the error branches and
  the order of the dicts of the program; it does not round. What depends on the
  outcome of a comparison between nearly equal doubles, or on a tolerance of the size
  of the rounding error, is therefore a property of the model and not of the program:
  the comparisons in \<open>distance\<close>, \<open>get_intersection\<close> and \<open>enclosesWeak\<close>, and the
  ties of the score of \<open>get_hole_degree\<close>.
\<close>

datatype circle = Circle (cx: real) (cy: real) (cr: real)

datatype error = ValueError | ZeroDivisionError | TypeError | KeyError | IndexError | RuntimeError

type_synonym label = string

text \<open>\<open>math.sqrt\<close> and \<open>/\<close> with the exceptions they raise.\<close>

definition py_sqrt :: "real \<Rightarrow> error + real" where
  "py_sqrt v = (if v < 0 then Inl ValueError else Inr (sqrt v))"

definition py_div :: "real \<Rightarrow> real \<Rightarrow> error + real" where
  "py_div a b = (if b = 0 then Inl ZeroDivisionError else Inr (a / b))"

section \<open>Geometry primitives\<close>

text \<open>
  \<open>distance\<close>: the centre distance minus both radii. The argument of the square root
  is a sum of two squares, so the call cannot raise. The value is the exact gap; the
  program's value differs from it by rounding, for instance it is negative on the two
  seed circles of the weights 1029 and 1028, which are tangent.
\<close>

definition distance :: "circle \<Rightarrow> circle \<Rightarrow> real" where
  "distance circle1 circle2 =
     (let x = cx circle2 - cx circle1; y = cy circle2 - cy circle1
      in sqrt (x * x + y * y) - cr circle1 - cr circle2)"

text \<open>
  \<open>get_intersection\<close>: the three early returns, then the chord construction. The
  result is a pair of optional points. The divisions by \<open>d\<close> (the branch \<open>d = 0\<close>
  after the early returns) and the square root of \<open>r1 * r1 - a * a\<close> keep their
  error branches. Over the reals the guards are decided exactly and the radicand is
  never negative past them; on doubles it can be, for pairs within rounding of
  tangency.
\<close>

definition get_intersection ::
  "circle \<Rightarrow> circle \<Rightarrow> error + ((real \<times> real) option \<times> (real \<times> real) option)" where
  "get_intersection circle1 circle2 =
     (let x1 = cx circle1; y1 = cy circle1; r1 = cr circle1;
          x2 = cx circle2; y2 = cy circle2; r2 = cr circle2;
          dx = x2 - x1; dy = y2 - y1;
          d = sqrt (dx * dx + dy * dy)
      in if d > r1 + r2 then Inr (None, None)
         else if d < \<bar>r1 - r2\<bar> then Inr (None, None)
         else if d = 0 \<and> r1 = r2 then Inr (None, None)
         else if d = 0 then Inl ZeroDivisionError
         else
           (let a = (r1 * r1 - r2 * r2 + d * d) / (2 * d)
            in case py_sqrt (r1 * r1 - a * a) of
                 Inl e \<Rightarrow> Inl e
               | Inr h \<Rightarrow>
                  (let xm = x1 + a * dx / d;
                       ym = y1 + a * dy / d;
                       xs1 = xm + h * dy / d;
                       xs2 = xm - h * dy / d;
                       ys1 = ym - h * dx / d;
                       ys2 = ym + h * dx / d
                   in if xs1 = xs2 \<and> ys1 = ys2 then Inr (Some (xs1, ys1), None)
                      else Inr (Some (xs1, ys1), Some (xs2, ys2)))))"

section \<open>Placement candidates\<close>

text \<open>\<open>sys.float_info.epsilon\<close> of an IEEE double is \<open>2 ^ -52\<close>.\<close>

definition float_epsilon :: real where
  "float_epsilon = 1 / 2 ^ 52"

definition margin :: real where
  "margin = 10 * float_epsilon"

definition get_placement_candidates ::
  "real \<Rightarrow> circle \<Rightarrow> circle \<Rightarrow> error + (circle option \<times> circle option)" where
  "get_placement_candidates radius c1 c2 =
     (let ic1 = Circle (cx c1) (cy c1) (cr c1 + (radius + margin));
          ic2 = Circle (cx c2) (cy c2) (cr c2 + (radius + margin))
      in case get_intersection ic1 ic2 of
           Inl e \<Rightarrow> Inl e
         | Inr (None, _) \<Rightarrow> Inr (None, None)
         | Inr (Some i1, None) \<Rightarrow> Inr (Some (Circle (fst i1) (snd i1) radius), None)
         | Inr (Some i1, Some i2) \<Rightarrow>
             Inr (Some (Circle (fst i1) (snd i1) radius),
                  Some (Circle (fst i2) (snd i2) radius)))"

section \<open>Hole degree\<close>

text \<open>
  \<open>get_hole_degree\<close>: the loop adds the centre distance of every placed circle that
  is not equal to \<open>pc1\<close> or \<open>pc2\<close> (a \<open>None\<close> excludes nothing); the result is the
  negated square root of the accumulated sum. The sum is never negative, so the
  final square root cannot raise. The real square root is injective; the rounded
  one of the program can give two different sums the same score.
\<close>

fun hole_degree_loop :: "circle \<Rightarrow> circle list \<Rightarrow> circle option \<Rightarrow> circle option \<Rightarrow> real \<Rightarrow> real" where
  "hole_degree_loop candidate [] pc1 pc2 lsq = lsq"
| "hole_degree_loop candidate (pc # rest) pc1 pc2 lsq =
     (if pc1 \<noteq> None \<and> pc1 = Some pc then hole_degree_loop candidate rest pc1 pc2 lsq
      else if pc2 \<noteq> None \<and> pc2 = Some pc then hole_degree_loop candidate rest pc1 pc2 lsq
      else hole_degree_loop candidate rest pc1 pc2
             (lsq + sqrt ((cy candidate - cy pc)\<^sup>2 + (cx candidate - cx pc)\<^sup>2)))"

definition get_hole_degree :: "circle \<Rightarrow> circle list \<Rightarrow> circle option \<Rightarrow> circle option \<Rightarrow> real" where
  "get_hole_degree candidate placed_circles pc1 pc2 =
     - sqrt (hole_degree_loop candidate placed_circles pc1 pc2 0)"

section \<open>Greedy packer\<close>

text \<open>
  A dict keeps its keys in insertion order; it is an association list with distinct
  keys. \<open>d[k] = v\<close> replaces the value of a key that is present and appends a new
  key at the end.
\<close>

fun dict_set :: "('k \<times> 'v) list \<Rightarrow> 'k \<Rightarrow> 'v \<Rightarrow> ('k \<times> 'v) list" where
  "dict_set [] k v = [(k, v)]"
| "dict_set ((k', v') # rest) k v =
     (if k' = k then (k, v) # rest else (k', v') # dict_set rest k v)"

definition dict_values :: "('k \<times> 'v) list \<Rightarrow> 'v list" where
  "dict_values d = map snd d"

definition dict_keys :: "('k \<times> 'v) list \<Rightarrow> 'k list" where
  "dict_keys d = map fst d"

text \<open>\<open>itertools.combinations(xs, 2)\<close>: the pairs of positions \<open>i < j\<close>, in lexicographic order.\<close>

fun combinations2 :: "'a list \<Rightarrow> ('a \<times> 'a) list" where
  "combinations2 [] = []"
| "combinations2 (a # rest) = map (\<lambda>b. (a, b)) rest @ combinations2 rest"

text \<open>The inner loop that looks for a placed circle overlapping the candidate.\<close>

fun overlap :: "circle list \<Rightarrow> circle \<Rightarrow> bool" where
  "overlap [] cand = False"
| "overlap (pc # rest) cand = (if distance pc cand < 0 then True else overlap rest cand)"

text \<open>
  The search for the lead candidate in \<open>pack_A1_0\<close>. \<open>try_candidate\<close> is the body of
  \<open>for cand in get_placement_candidates(...)\<close>, \<open>scan_pairs\<close> the loop over
  \<open>itertools.combinations(placed_circles.values(), 2)\<close>, and \<open>find_lead_with\<close> the
  whole search from \<open>mhd = None\<close>, \<open>lead_candidate = None\<close>. The state is the pair
  \<open>(mhd, lead_candidate)\<close>. The scoring function is a parameter, so that the search
  can be run with another score; the program runs it with \<open>get_hole_degree\<close>.
\<close>

type_synonym score = "circle \<Rightarrow> circle list \<Rightarrow> circle option \<Rightarrow> circle option \<Rightarrow> real"

fun try_candidate ::
  "score \<Rightarrow> circle list \<Rightarrow> circle \<Rightarrow> circle \<Rightarrow> real option \<times> circle option \<Rightarrow> circle option
     \<Rightarrow> real option \<times> circle option" where
  "try_candidate sc placed c1 c2 st None = st"
| "try_candidate sc placed c1 c2 (mhd, lead_candidate) (Some cand) =
     (if overlap placed cand then (mhd, lead_candidate)
      else (let hd = sc cand placed (Some c1) (Some c2)
            in case mhd of
                 None \<Rightarrow> (Some hd, Some cand)
               | Some m \<Rightarrow> if hd > m then (Some hd, Some cand) else (mhd, lead_candidate)))"

fun scan_pairs ::
  "score \<Rightarrow> real \<Rightarrow> circle list \<Rightarrow> (circle \<times> circle) list \<Rightarrow> real option \<times> circle option
     \<Rightarrow> error + (real option \<times> circle option)" where
  "scan_pairs sc radius placed [] st = Inr st"
| "scan_pairs sc radius placed ((c1, c2) # rest) st =
     (case get_placement_candidates radius c1 c2 of
        Inl e \<Rightarrow> Inl e
      | Inr (cand1, cand2) \<Rightarrow>
          scan_pairs sc radius placed rest
            (try_candidate sc placed c1 c2 (try_candidate sc placed c1 c2 st cand1) cand2))"

definition find_lead_with :: "score \<Rightarrow> real \<Rightarrow> circle list \<Rightarrow> error + circle option" where
  "find_lead_with sc radius placed =
     (case scan_pairs sc radius placed (combinations2 placed) (None, None) of
        Inl e \<Rightarrow> Inl e
      | Inr (mhd, lead_candidate) \<Rightarrow> Inr lead_candidate)"

text \<open>
  The outer loop over the sorted labels. \<open>break\<close> returns the mapping built so far;
  \<open>math.sqrt\<close> of a negative weight raises.
\<close>

fun pack_loop ::
  "score \<Rightarrow> (label \<times> real) list \<Rightarrow> (label \<times> circle) list \<Rightarrow> label list
     \<Rightarrow> error + (label \<times> circle) list" where
  "pack_loop sc data placed_circles [] = Inr placed_circles"
| "pack_loop sc data placed_circles (l # rest) =
     (case map_of data l of
        None \<Rightarrow> Inl KeyError
      | Some w \<Rightarrow>
         (case py_sqrt w of
            Inl e \<Rightarrow> Inl e
          | Inr radius \<Rightarrow>
             (let n_circles = length placed_circles
              in if n_circles \<le> 1
                 then (let x = (if n_circles = 0 then radius else - radius)
                       in pack_loop sc data (dict_set placed_circles l (Circle x 0 radius)) rest)
                 else (case find_lead_with sc radius (dict_values placed_circles) of
                         Inl e \<Rightarrow> Inl e
                       | Inr None \<Rightarrow> Inr placed_circles
                       | Inr (Some lead_candidate) \<Rightarrow>
                           pack_loop sc data (dict_set placed_circles l lead_candidate) rest))))"

text \<open>
  \<open>sorted(data, key=data.get, reverse=True)\<close>: Python's sort is stable and
  \<open>reverse=True\<close> keeps the input order of equal keys, which is the stable
  insertion sort on the negated key. The sort key \<open>data.get\<close> is applied to keys of
  \<open>data\<close> only, so its value for a missing key (\<open>None\<close>) is never compared; the model
  gives it the weight 0.
\<close>

definition weight :: "(label \<times> real) list \<Rightarrow> label \<Rightarrow> real" where
  "weight data l = (case map_of data l of None \<Rightarrow> 0 | Some w \<Rightarrow> w)"

definition pack_order :: "(label \<times> real) list \<Rightarrow> label list" where
  "pack_order data = sort_key (\<lambda>l. - weight data l) (dict_keys data)"

definition pack_with :: "score \<Rightarrow> (label \<times> real) list \<Rightarrow> error + (label \<times> circle) list" where
  "pack_with sc data = pack_loop sc data [] (pack_order data)"

definition pack_A1_0 :: "(label \<times> real) list \<Rightarrow> error + (label \<times> circle) list" where
  "pack_A1_0 data = pack_with get_hole_degree data"

section \<open>Minimal enclosing circle\<close>

definition enclosesNot :: "circle \<Rightarrow> circle \<Rightarrow> bool" where
  "enclosesNot a b =
     (let dr = cr a - cr b; dx = cx b - cx a; dy = cy b - cy a
      in dr < 0 \<or> dr * dr < dx * dx + dy * dy)"

text \<open>
  \<open>enclosesWeak\<close>: the tolerance \<open>1e-6\<close> is added exactly in the model; on doubles it
  is rounded away when the radii are large.
\<close>

definition enclosesWeak :: "circle \<Rightarrow> circle \<Rightarrow> bool" where
  "enclosesWeak a b =
     (let dr = cr a - cr b + 1 / 10 ^ 6; dx = cx b - cx a; dy = cy b - cy a
      in dr > 0 \<and> dr * dr > dx * dx + dy * dy)"

fun enclosesWeakAll :: "circle \<Rightarrow> circle list \<Rightarrow> bool" where
  "enclosesWeakAll a [] = True"
| "enclosesWeakAll a (b # rest) = (if \<not> enclosesWeak a b then False else enclosesWeakAll a rest)"

definition encloseBasis2 :: "circle \<Rightarrow> circle \<Rightarrow> error + circle" where
  "encloseBasis2 a b =
     (let x1 = cx a; y1 = cy a; r1 = cr a;
          x2 = cx b; y2 = cy b; r2 = cr b;
          x21 = x2 - x1; y21 = y2 - y1; r21 = r2 - r1;
          l = sqrt (x21 * x21 + y21 * y21)
      in if l = 0 then Inl ZeroDivisionError
         else Inr (Circle ((x1 + x2 + x21 / l * r21) / 2)
                          ((y1 + y2 + y21 / l * r21) / 2)
                          ((l + r1 + r2) / 2)))"

definition encloseBasis3 :: "circle \<Rightarrow> circle \<Rightarrow> circle \<Rightarrow> error + circle" where
  "encloseBasis3 a b c =
     (let x1 = cx a; y1 = cy a; r1 = cr a;
          x2 = cx b; y2 = cy b; r2 = cr b;
          x3 = cx c; y3 = cy c; r3 = cr c;
          a2 = x1 - x2; a3 = x1 - x3;
          b2 = y1 - y2; b3 = y1 - y3;
          c2 = r2 - r1; c3 = r3 - r1;
          d1 = x1 * x1 + y1 * y1 - r1 * r1;
          d2 = d1 - x2 * x2 - y2 * y2 + r2 * r2;
          d3 = d1 - x3 * x3 - y3 * y3 + r3 * r3;
          ab = a3 * b2 - a2 * b3
      in if ab * 2 = 0 then Inl ZeroDivisionError
         else
          (let xa = (b2 * d3 - b3 * d2) / (ab * 2) - x1;
               xb = (b3 * c2 - b2 * c3) / ab;
               ya = (a3 * d2 - a2 * d3) / (ab * 2) - y1;
               yb = (a2 * c3 - a3 * c2) / ab;
               A = xb * xb + yb * yb - 1;
               B = 2 * (r1 + xa * xb + ya * yb);
               C = xa * xa + ya * ya - r1 * r1
           in case (if A \<noteq> 0
                    then (case py_sqrt (B * B - 4 * A * C) of
                            Inl e \<Rightarrow> Inl e
                          | Inr s \<Rightarrow> Inr (- (B + s) / (2 * A)))
                    else py_div (- C) B) of
                Inl e \<Rightarrow> Inl e
              | Inr r \<Rightarrow> Inr (Circle (x1 + xa + xb * r) (y1 + ya + yb * r) r)))"

fun encloseBasis :: "circle list \<Rightarrow> error + circle" where
  "encloseBasis [b0] = Inr b0"
| "encloseBasis [b0, b1] = encloseBasis2 b0 b1"
| "encloseBasis (b0 # b1 # b2 # rest) = encloseBasis3 b0 b1 b2"
| "encloseBasis [] = Inl IndexError"

text \<open>The two search loops of \<open>extendBasis\<close>; \<open>and\<close> evaluates its operands from the left and stops at the first false one.\<close>

fun extend_pair :: "circle list \<Rightarrow> circle \<Rightarrow> circle list \<Rightarrow> error + circle list option" where
  "extend_pair B p [] = Inr None"
| "extend_pair B p (bi # rest) =
     (if enclosesNot p bi
      then (case encloseBasis2 bi p of
              Inl e \<Rightarrow> Inl e
            | Inr c \<Rightarrow> if enclosesWeakAll c B then Inr (Some [bi, p]) else extend_pair B p rest)
      else extend_pair B p rest)"

fun extend_triple :: "circle list \<Rightarrow> circle \<Rightarrow> (circle \<times> circle) list \<Rightarrow> error + circle list option" where
  "extend_triple B p [] = Inr None"
| "extend_triple B p ((bi, bj) # rest) =
     (case encloseBasis2 bi bj of
        Inl e \<Rightarrow> Inl e
      | Inr cij \<Rightarrow>
         if \<not> enclosesNot cij p then extend_triple B p rest
         else (case encloseBasis2 bi p of
                 Inl e \<Rightarrow> Inl e
               | Inr cip \<Rightarrow>
                  if \<not> enclosesNot cip bj then extend_triple B p rest
                  else (case encloseBasis2 bj p of
                          Inl e \<Rightarrow> Inl e
                        | Inr cjp \<Rightarrow>
                           if \<not> enclosesNot cjp bi then extend_triple B p rest
                           else (case encloseBasis3 bi bj p of
                                   Inl e \<Rightarrow> Inl e
                                 | Inr c3 \<Rightarrow>
                                    if enclosesWeakAll c3 B then Inr (Some [bi, bj, p])
                                    else extend_triple B p rest))))"

definition extendBasis :: "circle list \<Rightarrow> circle \<Rightarrow> error + circle list" where
  "extendBasis B p =
     (if enclosesWeakAll p B then Inr [p]
      else (case extend_pair B p B of
              Inl e \<Rightarrow> Inl e
            | Inr (Some B') \<Rightarrow> Inr B'
            | Inr None \<Rightarrow>
               (case extend_triple B p (combinations2 B) of
                  Inl e \<Rightarrow> Inl e
                | Inr (Some B') \<Rightarrow> Inr B'
                | Inr None \<Rightarrow> Inl RuntimeError)))"

text \<open>
  The \<open>while\<close> loop of \<open>enclose\<close> restarts whenever the basis changes and is not
  known to terminate: \<open>None\<close> is a run that never returns.
\<close>

partial_function (option) enclose_loop ::
  "circle list \<Rightarrow> circle list \<Rightarrow> circle option \<Rightarrow> nat \<Rightarrow> (error + circle option) option" where
  "enclose_loop circles B e i =
     (if i < length circles
      then (let p = circles ! i
            in if (case e of None \<Rightarrow> False | Some ec \<Rightarrow> enclosesWeak ec p)
               then enclose_loop circles B e (i + 1)
               else (case extendBasis B p of
                       Inl err \<Rightarrow> Some (Inl err)
                     | Inr B' \<Rightarrow>
                        (case encloseBasis B' of
                           Inl err \<Rightarrow> Some (Inl err)
                         | Inr e' \<Rightarrow> enclose_loop circles B' (Some e') 0)))
      else Some (Inr e))"

text \<open>
  \<open>random.shuffle\<close> is a parameter: a function that returns some rearrangement of
  the list it is given.
\<close>

definition enclose ::
  "(circle list \<Rightarrow> circle list) \<Rightarrow> (label \<times> circle) list \<Rightarrow> (error + circle option) option" where
  "enclose shuffle packed_circles = enclose_loop (shuffle (dict_values packed_circles)) [] None 0"

section \<open>Scaling and the entry point\<close>

fun scale_loop ::
  "(label \<times> circle) list \<Rightarrow> real \<Rightarrow> real \<Rightarrow> real \<Rightarrow> (label \<times> circle) list
     \<Rightarrow> error + (label \<times> circle) list" where
  "scale_loop [] x y r scaled = Inr scaled"
| "scale_loop ((l, c) # rest) x y r scaled =
     (if r = 0 then Inl ZeroDivisionError
      else scale_loop rest x y r
             (dict_set scaled l (Circle ((cx c - x) / r) ((cy c - y) / r) (cr c / r))))"

definition scale :: "(label \<times> circle) list \<Rightarrow> real \<Rightarrow> real \<Rightarrow> real \<Rightarrow> error + (label \<times> circle) list" where
  "scale circles x y r = scale_loop circles x y r []"

text \<open>
  \<open>circlify\<close>: \<open>scale(packed_circles, *enclosure)\<close> unpacks the enclosure, which
  raises \<open>TypeError\<close> when \<open>enclose\<close> returned \<open>None\<close>.
\<close>

definition circlify ::
  "(circle list \<Rightarrow> circle list) \<Rightarrow> (label \<times> real) list \<Rightarrow> bool
     \<Rightarrow> (error + (label \<times> circle) list) option" where
  "circlify shuffle data with_unit =
     (case pack_A1_0 data of
        Inl e \<Rightarrow> Some (Inl e)
      | Inr packed_circles \<Rightarrow>
         (case enclose shuffle packed_circles of
            None \<Rightarrow> None
          | Some (Inl e) \<Rightarrow> Some (Inl e)
          | Some (Inr None) \<Rightarrow> Some (Inl TypeError)
          | Some (Inr (Some enclosure)) \<Rightarrow>
             (case scale packed_circles (cx enclosure) (cy enclosure) (cr enclosure) of
                Inl e \<Rightarrow> Some (Inl e)
              | Inr packed_and_scaled_circles \<Rightarrow>
                 Some (Inr (if with_unit
                            then dict_set packed_and_scaled_circles [] (Circle 0 0 1)
                            else packed_and_scaled_circles)))))"

section \<open>Notions used in the statements\<close>

text \<open>The Euclidean distance between the centres of two circles.\<close>

definition center_distance :: "circle \<Rightarrow> circle \<Rightarrow> real" where
  "center_distance c1 c2 =
     sqrt ((cx c2 - cx c1) * (cx c2 - cx c1) + (cy c2 - cy c1) * (cy c2 - cy c1))"

text \<open>
  The hole degree as the specification words it: the negated plain sum of the centre
  distances to the placed circles other than the two that generated the candidate.
\<close>

definition spec_hole_degree :: score where
  "spec_hole_degree candidate placed_circles pc1 pc2 =
     - (\<Sum>pc\<leftarrow>filter (\<lambda>pc. pc1 \<noteq> Some pc \<and> pc2 \<noteq> Some pc) placed_circles.
          sqrt ((cy candidate - cy pc)\<^sup>2 + (cx candidate - cx pc)\<^sup>2))"

text \<open>
  Two states \<open>(mhd, lead_candidate)\<close> of the selection loop, the first scored with
  \<open>get_hole_degree\<close> and the second with \<open>spec_hole_degree\<close>, hold the same choice.
\<close>

fun same_choice :: "real option \<times> circle option \<Rightarrow> real option \<times> circle option \<Rightarrow> bool" where
  "same_choice (None, l1) (None, l2) = (l1 = l2)"
| "same_choice (Some a, l1) (Some b, l2) = (l1 = l2 \<and> b \<le> 0 \<and> a = - sqrt (- b))"
| "same_choice (None, l1) (Some b, l2) = False"
| "same_choice (Some a, l1) (None, l2) = False"

text \<open>
  The candidates of a pair of placed circles that overlap no placed circle, and those
  of all pairs, in the order in which the packer meets them.
\<close>

fun present :: "'a option \<Rightarrow> 'a list" where
  "present None = []"
| "present (Some a) = [a]"

definition pair_candidates :: "real \<Rightarrow> circle list \<Rightarrow> circle \<Rightarrow> circle \<Rightarrow> circle list" where
  "pair_candidates radius placed c1 c2 =
     (case get_placement_candidates radius c1 c2 of
        Inl e \<Rightarrow> []
      | Inr (cand1, cand2) \<Rightarrow>
          filter (\<lambda>cand. \<not> overlap placed cand) (present cand1 @ present cand2))"

definition valid_candidates :: "real \<Rightarrow> circle list \<Rightarrow> circle list" where
  "valid_candidates radius placed =
     concat (map (\<lambda>(c1, c2). pair_candidates radius placed c1 c2) (combinations2 placed))"

section \<open>Dictionaries\<close>

lemma dict_set_new:
  "k \<notin> set (dict_keys d) \<Longrightarrow> dict_set d k v = d @ [(k, v)]"
  by (induction d) (auto simp: dict_keys_def)

lemma dict_set_keys_list:
  "dict_keys (dict_set d k v) = (if k \<in> set (dict_keys d) then dict_keys d else dict_keys d @ [k])"
proof (induction d)
  case Nil
  show ?case by (simp add: dict_keys_def)
next
  case (Cons kv d)
  obtain k' v' where kv: "kv = (k', v')" by (cases kv)
  show ?case using Cons kv by (cases "k' = k") (simp_all add: dict_keys_def)
qed


lemma dict_keys_append [simp]: "dict_keys (d @ d') = dict_keys d @ dict_keys d'"
  by (simp add: dict_keys_def)

lemma dict_values_append [simp]: "dict_values (d @ d') = dict_values d @ dict_values d'"
  by (simp add: dict_values_def)

lemma length_dict_keys [simp]: "length (dict_keys d) = length d"
  by (simp add: dict_keys_def)

lemma length_dict_values [simp]: "length (dict_values d) = length d"
  by (simp add: dict_values_def)

text \<open>A run of the packer on two labels, given in ascending order of weight.\<close>

lemma pack_order_example: "pack_order [(''a'', 1), (''b'', 4)] = [''b'', ''a'']"
  by (simp add: pack_order_def dict_keys_def weight_def)

lemma pack_example:
  "pack_A1_0 [(''a'', 1), (''b'', 4)] = Inr [(''b'', Circle 2 0 2), (''a'', Circle (- 1) 0 1)]"
  by (simp add: pack_A1_0_def pack_with_def pack_order_example py_sqrt_def)

section \<open>Two-circle intersection\<close>

lemma center_distance_nonneg: "0 \<le> center_distance c1 c2"
  by (simp add: center_distance_def)

text \<open>
  Past the three early returns the radicand \<open>r1 * r1 - a * a\<close> is the product of
  \<open>r1 - a\<close> and \<open>r1 + a\<close>, both of which are non-negative.
\<close>

lemma chord_offset_real:
  fixes r1 r2 d :: real
  assumes "\<not> d > r1 + r2" "\<not> d < \<bar>r1 - r2\<bar>" "0 < d"
  shows "0 \<le> r1 * r1 - ((r1 * r1 - r2 * r2 + d * d) / (2 * d)) * ((r1 * r1 - r2 * r2 + d * d) / (2 * d))"
proof -
  let ?a = "(r1 * r1 - r2 * r2 + d * d) / (2 * d)"
  have r2: "0 \<le> r2" and r1: "0 \<le> r1" using assms by linarith+
  have e1: "r1 - ?a = (r2 * r2 - (d - r1) * (d - r1)) / (2 * d)"
    using assms(3) by (simp add: field_simps)
  have e2: "r1 + ?a = ((d + r1) * (d + r1) - r2 * r2) / (2 * d)"
    using assms(3) by (simp add: field_simps)
  have "\<bar>d - r1\<bar> \<le> r2" using assms by linarith
  then have "(d - r1) * (d - r1) \<le> r2 * r2"
    by (metis abs_le_square_iff abs_of_nonneg power2_eq_square r2)
  then have p1: "0 \<le> r1 - ?a" unfolding e1 using assms(3) by simp
  have "r2 \<le> d + r1" using assms by linarith
  then have "r2 * r2 \<le> (d + r1) * (d + r1)"
    using r2 by (simp add: mult_mono)
  then have p2: "0 \<le> r1 + ?a" unfolding e2 using assms(3) by simp
  have "r1 * r1 - ?a * ?a = (r1 - ?a) * (r1 + ?a)" by (simp add: algebra_simps)
  then show ?thesis using p1 p2 by simp
qed

text \<open>Over the reals no branch of \<open>get_intersection\<close> raises.\<close>

lemma get_intersection_no_error: "get_intersection c1 c2 \<noteq> Inl e"
proof -
  let ?d = "center_distance c1 c2"
  have d0: "0 \<le> ?d" by (rule center_distance_nonneg)
  show ?thesis
  proof (cases "?d > cr c1 + cr c2 \<or> ?d < \<bar>cr c1 - cr c2\<bar> \<or> (?d = 0 \<and> cr c1 = cr c2)")
    case True
    then show ?thesis
      unfolding get_intersection_def Let_def center_distance_def[symmetric]
      by auto
  next
    case False
    then have a: "\<not> ?d > cr c1 + cr c2" and b: "\<not> ?d < \<bar>cr c1 - cr c2\<bar>"
      and c: "\<not> (?d = 0 \<and> cr c1 = cr c2)"
      by auto
    have "?d \<noteq> 0" using b c by auto
    then have pos: "0 < ?d" using d0 by linarith
    have h: "\<not> cr c1 * cr c1 - ((cr c1 * cr c1 - cr c2 * cr c2 + ?d * ?d) / (2 * ?d))
                 * ((cr c1 * cr c1 - cr c2 * cr c2 + ?d * ?d) / (2 * ?d)) < 0"
      using chord_offset_real[OF a b pos] by linarith
    show ?thesis
      unfolding get_intersection_def Let_def center_distance_def[symmetric]
      using a b c pos h by (simp add: py_sqrt_def)
  qed
qed

text \<open>
  In exact arithmetic \<open>get_intersection\<close> returns the pair \<open>(None, None)\<close> exactly
  when the centres are farther apart than \<open>r1 + r2\<close>, or closer than \<open>|r1 - r2|\<close>, or
  the centres coincide and the radii are equal. This is a property of the model over
  the reals only: the program compares rounded doubles, and a pair within rounding of
  tangency can pass the three guards and reach \<open>math.sqrt\<close> with a negative radicand.
\<close>

lemma get_intersection_none_iff:
  "get_intersection c1 c2 = Inr (None, None) \<longleftrightarrow>
     (center_distance c1 c2 > cr c1 + cr c2
      \<or> center_distance c1 c2 < \<bar>cr c1 - cr c2\<bar>
      \<or> (center_distance c1 c2 = 0 \<and> cr c1 = cr c2))"
  unfolding get_intersection_def Let_def center_distance_def[symmetric]
  by (simp add: py_sqrt_def split: sum.splits)

lemma get_intersection_none_iff_example:
  "get_intersection (Circle 0 0 3) (Circle 0 0 1) = Inr (None, None)
   \<and> get_intersection (Circle 0 0 1) (Circle 0 0 1) = Inr (None, None)
   \<and> get_intersection (Circle 0 0 1) (Circle 0 3 1) = Inr (None, None)
   \<and> get_intersection (Circle 0 0 1) (Circle 0 2 1) \<noteq> Inr (None, None)"
  using get_intersection_none_iff[of "Circle 0 0 3" "Circle 0 0 1"]
        get_intersection_none_iff[of "Circle 0 0 1" "Circle 0 0 1"]
        get_intersection_none_iff[of "Circle 0 0 1" "Circle 0 3 1"]
        get_intersection_none_iff[of "Circle 0 0 1" "Circle 0 2 1"]
  by (simp add: center_distance_def)

section \<open>Hole degree and the choice of the lead candidate\<close>

lemma hole_degree_loop_sum:
  "hole_degree_loop candidate placed pc1 pc2 lsq =
     lsq + (\<Sum>pc\<leftarrow>filter (\<lambda>pc. pc1 \<noteq> Some pc \<and> pc2 \<noteq> Some pc) placed.
              sqrt ((cy candidate - cy pc)\<^sup>2 + (cx candidate - cx pc)\<^sup>2))"
  by (induction placed arbitrary: lsq) auto

lemma spec_hole_degree_nonpos: "spec_hole_degree candidate placed pc1 pc2 \<le> 0"
  unfolding spec_hole_degree_def by (auto intro!: sum_list_nonneg)

lemma get_hole_degree_spec:
  "get_hole_degree candidate placed pc1 pc2 = - sqrt (- spec_hole_degree candidate placed pc1 pc2)"
  by (simp add: get_hole_degree_def hole_degree_loop_sum spec_hole_degree_def)

lemma sqrt_16: "sqrt 16 = 4"
  by (rule real_sqrt_unique) simp_all

text \<open>
  C3, as stated: \<open>get_hole_degree\<close> returns the negated sum of the centre distances to
  the placed circles other than the generating pair. It fails for a candidate at the
  origin and one counted circle at distance 4: the function returns \<open>-2\<close>, the
  negated sum is \<open>-4\<close>.
\<close>

theorem get_hole_degree_counterexample:
  "get_hole_degree (Circle 0 0 1) [Circle 4 0 1, Circle 1 1 1] (Some (Circle 1 1 1)) None
     \<noteq> spec_hole_degree (Circle 0 0 1) [Circle 4 0 1, Circle 1 1 1] (Some (Circle 1 1 1)) None"
  by (simp add: get_hole_degree_def spec_hole_degree_def sqrt_16)

text \<open>
  C3, amended: \<open>get_hole_degree\<close> returns the negated square root of the sum of the
  centre distances from the candidate to every placed circle that is equal to neither
  circle of the generating pair.
\<close>

theorem get_hole_degree_value:
  "get_hole_degree candidate placed_circles pc1 pc2 =
     - sqrt (\<Sum>pc\<leftarrow>filter (\<lambda>pc. pc1 \<noteq> Some pc \<and> pc2 \<noteq> Some pc) placed_circles.
               sqrt ((cy candidate - cy pc)\<^sup>2 + (cx candidate - cx pc)\<^sup>2))"
  by (simp add: get_hole_degree_def hole_degree_loop_sum)

theorem get_hole_degree_value_witness:
  "get_hole_degree (Circle 0 0 1) [Circle 4 0 1, Circle 1 1 1] (Some (Circle 1 1 1)) None = - 2"
  using get_hole_degree_value[of "Circle 0 0 1" "[Circle 4 0 1, Circle 1 1 1]" "Some (Circle 1 1 1)" None]
  by (simp add: sqrt_16)

text \<open>One candidate keeps the two selection states in step: \<open>- sqrt s\<close> and \<open>- s\<close> order candidates alike.\<close>

lemma try_candidate_same_choice:
  assumes "same_choice st1 st2"
  shows "same_choice (try_candidate get_hole_degree placed c1 c2 st1 k)
                     (try_candidate spec_hole_degree placed c1 c2 st2 k)"
proof (cases k)
  case None
  then show ?thesis using assms by simp
next
  case (Some cand)
  obtain m1 l1 where st1: "st1 = (m1, l1)" by (cases st1)
  obtain m2 l2 where st2: "st2 = (m2, l2)" by (cases st2)
  let ?s = "spec_hole_degree cand placed (Some c1) (Some c2)"
  have s: "?s \<le> 0" by (rule spec_hole_degree_nonpos)
  have g: "get_hole_degree cand placed (Some c1) (Some c2) = - sqrt (- ?s)"
    by (rule get_hole_degree_spec)
  show ?thesis
  proof (cases m1)
    case None
    then have "m2 = None" using assms st1 st2 by (cases m2) auto
    then show ?thesis using assms st1 st2 None Some s g by (simp add: Let_def)
  next
    case m1: (Some a)
    then obtain b where b: "m2 = Some b" using assms st1 st2 by (cases m2) auto
    have ab: "b \<le> 0" "a = - sqrt (- b)" "l1 = l2" using assms st1 st2 m1 b by auto
    have "(- sqrt (- ?s) > a) = (?s > b)" using ab s by simp
    then show ?thesis using assms st1 st2 Some m1 b s g ab by (simp add: Let_def)
  qed
qed

lemma scan_pairs_same_choice:
  assumes "same_choice st1 st2"
  shows "case (scan_pairs get_hole_degree radius placed ps st1,
               scan_pairs spec_hole_degree radius placed ps st2) of
           (Inl e1, Inl e2) \<Rightarrow> e1 = e2
         | (Inr r1, Inr r2) \<Rightarrow> same_choice r1 r2
         | _ \<Rightarrow> False"
  using assms
proof (induction ps arbitrary: st1 st2)
  case Nil
  then show ?case by simp
next
  case (Cons pr ps)
  obtain c1 c2 where pr: "pr = (c1, c2)" by (cases pr)
  show ?case
  proof (cases "get_placement_candidates radius c1 c2")
    case (Inl e)
    then show ?thesis using pr by simp
  next
    case (Inr ks)
    obtain k1 k2 where ks: "ks = (k1, k2)" by (cases ks)
    have "same_choice
            (try_candidate get_hole_degree placed c1 c2
               (try_candidate get_hole_degree placed c1 c2 st1 k1) k2)
            (try_candidate spec_hole_degree placed c1 c2
               (try_candidate spec_hole_degree placed c1 c2 st2 k1) k2)"
      by (intro try_candidate_same_choice Cons.prems)
    from Cons.IH[OF this] show ?thesis using pr Inr ks by simp
  qed
qed

lemma same_choice_snd: "same_choice r1 r2 \<Longrightarrow> snd r1 = snd r2"
  by (cases "(r1, r2)" rule: same_choice.cases) auto

lemma find_lead_same:
  "find_lead_with get_hole_degree radius placed = find_lead_with spec_hole_degree radius placed"
proof -
  have "same_choice (None, None) (None, None)" by simp
  from scan_pairs_same_choice[OF this, of radius placed "combinations2 placed"]
  show ?thesis
    unfolding find_lead_with_def
    by (auto split: sum.splits prod.splits dest: same_choice_snd)
qed

lemma pack_loop_same:
  "pack_loop get_hole_degree data placed ls = pack_loop spec_hole_degree data placed ls"
  by (induction ls arbitrary: placed)
     (simp_all add: find_lead_same Let_def split: option.splits sum.splits)

text \<open>
  In exact arithmetic, for any placed circles and radius, the lead candidate found
  with the score of \<open>get_hole_degree\<close> (the negated square root of the sum) is the one
  found with the negated plain sum, errors included. This is a property of the model
  over the reals only: on doubles two different sums can have the same rounded
  square root, and the selection then keeps the first candidate where the plain sum
  prefers the second.
\<close>

lemma hole_degree_refinement:
  "find_lead_with get_hole_degree radius placed = find_lead_with spec_hole_degree radius placed
   \<and> pack_A1_0 data = pack_with spec_hole_degree data"
  by (simp add: find_lead_same pack_A1_0_def pack_with_def pack_loop_same)

lemma hole_degree_refinement_example:
  "find_lead_with get_hole_degree 1 [Circle 1 0 1, Circle (- 1) 0 1]
     = find_lead_with spec_hole_degree 1 [Circle 1 0 1, Circle (- 1) 0 1]
   \<and> pack_A1_0 [(''a'', 1), (''b'', 4)] = pack_with spec_hole_degree [(''a'', 1), (''b'', 4)]"
  using hole_degree_refinement[of 1 "[Circle 1 0 1, Circle (- 1) 0 1]" "[(''a'', 1), (''b'', 4)]"]
  by simp

section \<open>Order of processing\<close>

text \<open>
  The keys of the result of the loop are the keys it started with, followed by a
  prefix of the labels it was given: every label is appended when it is placed, and
  the loop stops at the first label it cannot place.
\<close>

lemma pack_loop_keys:
  "pack_loop sc data placed rest = Inr placed' \<Longrightarrow> distinct (dict_keys placed @ rest) \<Longrightarrow>
     \<exists>k \<le> length rest. dict_keys placed' = dict_keys placed @ take k rest"
proof (induction rest arbitrary: placed)
  case Nil
  then show ?case by simp
next
  case (Cons l rest)
  from Cons.prems(2) have new: "l \<notin> set (dict_keys placed)" by auto
  have step: "\<And>c. pack_loop sc data (dict_set placed l c) rest = Inr placed' \<Longrightarrow>
                 \<exists>k \<le> length (l # rest). dict_keys placed' = dict_keys placed @ take k (l # rest)"
  proof -
    fix c assume a: "pack_loop sc data (dict_set placed l c) rest = Inr placed'"
    have d: "distinct (dict_keys (dict_set placed l c) @ rest)"
      using Cons.prems(2) by (simp add: dict_set_new[OF new] dict_keys_def)
    from Cons.IH[OF a d] obtain k where "k \<le> length rest"
      "dict_keys placed' = dict_keys (dict_set placed l c) @ take k rest" by blast
    then have "Suc k \<le> length (l # rest)"
      "dict_keys placed' = dict_keys placed @ take (Suc k) (l # rest)"
      by (simp_all add: dict_set_new[OF new] dict_keys_def)
    then show "\<exists>k \<le> length (l # rest). dict_keys placed' = dict_keys placed @ take k (l # rest)"
      by blast
  qed
  have stop: "placed' = placed \<Longrightarrow>
                \<exists>k \<le> length (l # rest). dict_keys placed' = dict_keys placed @ take k (l # rest)"
    by (rule exI[of _ 0]) simp
  show ?case
  proof (cases "map_of data l")
    case None
    then show ?thesis using Cons.prems(1) by simp
  next
    case (Some w)
    show ?thesis
    proof (cases "py_sqrt w")
      case (Inl e)
      then show ?thesis using Cons.prems(1) Some by simp
    next
      case (Inr radius)
      show ?thesis
      proof (cases "length placed \<le> 1")
        case True
        then have "pack_loop sc data
                     (dict_set placed l (Circle (if length placed = 0 then radius else - radius) 0 radius))
                     rest = Inr placed'"
          using Cons.prems(1) Some Inr by (simp add: Let_def)
        then show ?thesis by (rule step)
      next
        case False
        show ?thesis
        proof (cases "find_lead_with sc radius (dict_values placed)")
          case (Inl e)
          then show ?thesis using Cons.prems(1) Some Inr False by simp
        next
          case r: (Inr lead)
          show ?thesis
          proof (cases lead)
            case None
            then have "placed' = placed" using Cons.prems(1) Some Inr False r by simp
            then show ?thesis by (rule stop)
          next
            case c: (Some c)
            then have "pack_loop sc data (dict_set placed l c) rest = Inr placed'"
              using Cons.prems(1) Some Inr False r by simp
            then show ?thesis by (rule step)
          qed
        qed
      qed
    qed
  qed
qed

lemma pack_order_mset: "mset (pack_order data) = mset (dict_keys data)"
  by (simp add: pack_order_def)

lemma pack_order_descending:
  assumes "i < j" "j < length (pack_order data)"
  shows "weight data (pack_order data ! j) \<le> weight data (pack_order data ! i)"
proof -
  have "sorted (map (\<lambda>l. - weight data l) (pack_order data))"
    by (simp add: pack_order_def)
  then have "map (\<lambda>l. - weight data l) (pack_order data) ! i
               \<le> map (\<lambda>l. - weight data l) (pack_order data) ! j"
    using assms by (intro sorted_nth_mono) simp_all
  then show ?thesis using assms by simp
qed

lemma pack_order_stable:
  "filter (\<lambda>l. weight data l = w) (pack_order data) = filter (\<lambda>l. weight data l = w) (dict_keys data)"
proof -
  have "filter (\<lambda>l. - weight data l = - w) (sort_key (\<lambda>l. - weight data l) (dict_keys data))
          = filter (\<lambda>l. - weight data l = - w) (dict_keys data)"
    by (rule sort_key_stable)
  then show ?thesis by (simp add: pack_order_def)
qed

lemma pack_order_distinct: "distinct (dict_keys data) \<Longrightarrow> distinct (pack_order data)"
  by (simp add: pack_order_def)

lemma pack_with_keys:
  assumes "distinct (dict_keys data)" "pack_with sc data = Inr placed"
  shows "dict_keys placed = take (length placed) (pack_order data)"
proof -
  have "distinct (dict_keys [] @ pack_order data)"
    using assms(1) by (simp add: pack_order_distinct dict_keys_def)
  from pack_loop_keys[OF assms(2)[unfolded pack_with_def] this]
  obtain k where k: "k \<le> length (pack_order data)" "dict_keys placed = take k (pack_order data)"
    by (auto simp: dict_keys_def)
  then have "length placed = k"
    by (metis dict_keys_def length_map length_take min.absorb2)
  then show ?thesis using k by simp
qed

text \<open>
  C7: the order in which \<open>pack_A1_0\<close> processes the labels of a dict is a
  rearrangement of its keys in which the weights never increase and in which the
  labels of any one weight keep the order they have in the input; the labels placed
  are, in their order of placement, an initial segment of it.
\<close>

theorem pack_order_descending_stable:
  assumes "distinct (dict_keys data)"
  shows "mset (pack_order data) = mset (dict_keys data)
       \<and> (\<forall>i j. i < j \<and> j < length (pack_order data) \<longrightarrow>
              weight data (pack_order data ! j) \<le> weight data (pack_order data ! i))
       \<and> (\<forall>w. filter (\<lambda>l. weight data l = w) (pack_order data)
                = filter (\<lambda>l. weight data l = w) (dict_keys data))
       \<and> (\<forall>placed. pack_A1_0 data = Inr placed \<longrightarrow>
              dict_keys placed = take (length placed) (pack_order data))"
proof (intro conjI allI impI)
  show "mset (pack_order data) = mset (dict_keys data)" by (rule pack_order_mset)
next
  fix i j assume "i < j \<and> j < length (pack_order data)"
  then show "weight data (pack_order data ! j) \<le> weight data (pack_order data ! i)"
    using pack_order_descending by blast
next
  fix w show "filter (\<lambda>l. weight data l = w) (pack_order data)
                = filter (\<lambda>l. weight data l = w) (dict_keys data)"
    by (rule pack_order_stable)
next
  fix placed assume "pack_A1_0 data = Inr placed"
  then show "dict_keys placed = take (length placed) (pack_order data)"
    using pack_with_keys[OF assms] by (simp add: pack_A1_0_def)
qed

theorem pack_order_descending_stable_witness:
  "distinct (dict_keys [(''a'', 1 :: real), (''b'', 4)])
   \<and> pack_A1_0 [(''a'', 1), (''b'', 4)] = Inr [(''b'', Circle 2 0 2), (''a'', Circle (- 1) 0 1)]
   \<and> pack_order [(''a'', 1), (''b'', 4)] = [''b'', ''a'']
   \<and> dict_keys [(''b'', Circle 2 0 2), (''a'', Circle (- 1) 0 1)]
        = take (length [(''b'', Circle 2 0 2), (''a'', Circle (- 1) 0 1)])
            (pack_order [(''a'', 1), (''b'', 4)])"
proof -
  have d: "distinct (dict_keys [(''a'', 1 :: real), (''b'', 4)])" by (simp add: dict_keys_def)
  from pack_order_descending_stable[OF d] pack_example
  have "dict_keys [(''b'', Circle 2 0 2), (''a'', Circle (- 1) 0 1)]
        = take (length [(''b'', Circle 2 0 2), (''a'', Circle (- 1) 0 1)])
            (pack_order [(''a'', 1), (''b'', 4)])"
    by blast
  then show ?thesis using d pack_example pack_order_example by blast
qed

section \<open>Enclosing circle\<close>

lemma enclosesWeak_distance:
  assumes "enclosesWeak e c"
  shows "center_distance e c + cr c < cr e + 1 / 10 ^ 6"
proof -
  let ?dr = "cr e - cr c + 1 / 10 ^ 6"
  let ?s = "(cx c - cx e) * (cx c - cx e) + (cy c - cy e) * (cy c - cy e)"
  from assms have pos: "0 < ?dr" and sq: "?s < ?dr * ?dr"
    by (simp_all add: enclosesWeak_def Let_def)
  have "sqrt ?s < sqrt (?dr * ?dr)" using sq by (simp only: real_sqrt_less_iff)
  also have "sqrt (?dr * ?dr) = ?dr" using pos by simp
  finally show ?thesis by (simp add: center_distance_def)
qed

text \<open>
  The loop returns only from index \<open>length circles\<close>, and the index grows only past
  a circle that the current enclosing circle weakly encloses.
\<close>

lemma enclose_loop_sound:
  assumes "enclose_loop circles B e i = Some y"
  shows "i \<le> length circles \<longrightarrow> circles \<noteq> [] \<longrightarrow>
         (\<forall>k<i. \<exists>ec. e = Some ec \<and> enclosesWeak ec (circles ! k)) \<longrightarrow>
         (\<forall>res. y = Inr res \<longrightarrow> (\<exists>ec. res = Some ec \<and> (\<forall>c\<in>set circles. enclosesWeak ec c)))"
proof (rule enclose_loop.raw_induct[where P = "\<lambda>circles B e i y. i \<le> length circles \<longrightarrow> circles \<noteq> [] \<longrightarrow>
         (\<forall>k<i. \<exists>ec. e = Some ec \<and> enclosesWeak ec (circles ! k)) \<longrightarrow>
         (\<forall>res. y = Inr res \<longrightarrow> (\<exists>ec. res = Some ec \<and> (\<forall>c\<in>set circles. enclosesWeak ec c)))",
       OF _ assms], goal_cases)
  case (1 loop circles B e i y)
  show ?case
  proof (intro impI allI)
    fix res
    assume le: "i \<le> length circles" and ne: "circles \<noteq> []"
      and inv: "\<forall>k<i. \<exists>ec. e = Some ec \<and> enclosesWeak ec (circles ! k)"
      and y: "y = Inr res"
    show "\<exists>ec. res = Some ec \<and> (\<forall>c\<in>set circles. enclosesWeak ec c)"
    proof (cases "i < length circles")
      case False
      then have i: "i = length circles" using le by simp
      from 1(2) False y have res: "res = e" by simp
      have "0 < i" using i ne by simp
      then obtain ec where ec: "e = Some ec" using inv by blast
      have "\<forall>c\<in>set circles. enclosesWeak ec c"
        using inv ec i by (auto simp: in_set_conv_nth)
      then show ?thesis using res ec by simp
    next
      case True
      show ?thesis
      proof (cases "case e of None \<Rightarrow> False | Some ec \<Rightarrow> enclosesWeak ec (circles ! i)")
        case t: True
        then have call: "loop circles B e (i + 1) = Some y" using 1(2) True by (simp add: Let_def)
        have inv': "\<forall>k<i + 1. \<exists>ec. e = Some ec \<and> enclosesWeak ec (circles ! k)"
        proof (intro allI impI)
          fix k assume "k < i + 1"
          then consider "k < i" | "k = i" by linarith
          then show "\<exists>ec. e = Some ec \<and> enclosesWeak ec (circles ! k)"
          proof cases
            case 1 then show ?thesis using inv by blast
          next
            case 2 then show ?thesis using t by (cases e) auto
          qed
        qed
        from 1(1)[OF call] True ne inv' y show ?thesis by simp
      next
        case f: False
        from 1(2) True f obtain B' e' where call: "loop circles B' (Some e') 0 = Some y"
          by (auto simp: Let_def y split: sum.splits)
        from 1(1)[OF call] ne y show ?thesis by simp
      qed
    qed
  qed
qed

text \<open>
  When \<open>enclose\<close> returns for a non-empty mapping, whatever rearrangement the
  shuffle produced, it returns a circle \<open>e\<close> and \<open>enclosesWeak e c\<close> holds for every
  circle \<open>c\<close> of the mapping. In exact arithmetic the centre distance plus the radius
  of \<open>c\<close> is then at most the radius of \<open>e\<close> plus \<open>1e-6\<close>; on doubles the tolerance
  is rounded away at large radii, so the bound is a property of the model over the
  reals only. Nothing is said here of whether \<open>enclose\<close> returns.
\<close>

lemma enclose_encloses_all:
  assumes "enclose shuffle packed_circles = Some (Inr res)"
    and "packed_circles \<noteq> []"
    and "mset (shuffle (dict_values packed_circles)) = mset (dict_values packed_circles)"
  shows "\<exists>e. res = Some e \<and>
           (\<forall>c\<in>set (dict_values packed_circles).
               enclosesWeak e c \<and> center_distance e c + cr c \<le> cr e + 1 / 10 ^ 6)"
proof -
  let ?cs = "shuffle (dict_values packed_circles)"
  have set_eq: "set ?cs = set (dict_values packed_circles)" using assms(3) by (rule mset_eq_setD)
  have "dict_values packed_circles \<noteq> []" using assms(2) by (simp add: dict_values_def)
  then have ne: "?cs \<noteq> []" using set_eq by (metis set_empty)
  from enclose_loop_sound[OF assms(1)[unfolded enclose_def]] ne
  obtain e where e: "res = Some e" "\<forall>c\<in>set ?cs. enclosesWeak e c" by auto
  then show ?thesis using set_eq enclosesWeak_distance by (metis less_eq_real_def)
qed

text \<open>Steps of the loop of \<open>enclose\<close>.\<close>

lemma enclose_loop_done:
  "\<not> i < length cs \<Longrightarrow> enclose_loop cs B e i = Some (Inr e)"
  by (subst enclose_loop.simps) simp

lemma enclose_loop_skip:
  "i < length cs \<Longrightarrow> enclosesWeak ec (cs ! i) \<Longrightarrow>
     enclose_loop cs B (Some ec) i = enclose_loop cs B (Some ec) (i + 1)"
  by (subst enclose_loop.simps) simp

lemma enclose_loop_extend:
  "i < length cs \<Longrightarrow> (case e of None \<Rightarrow> True | Some ec \<Rightarrow> \<not> enclosesWeak ec (cs ! i)) \<Longrightarrow>
     extendBasis B (cs ! i) = Inr B' \<Longrightarrow> encloseBasis B' = Inr e' \<Longrightarrow>
     enclose_loop cs B e i = enclose_loop cs B' (Some e') 0"
  by (subst enclose_loop.simps) (auto split: option.splits)

text \<open>A mapping of one circle is enclosed by that circle.\<close>

lemma enclose_single: "enclose (\<lambda>cs. cs) [(l, c)] = Some (Inr (Some c))"
proof -
  have w: "enclosesWeak c c" by (simp add: enclosesWeak_def)
  have "enclose_loop [c] [] None 0 = enclose_loop [c] [c] (Some c) 0"
    by (rule enclose_loop_extend) (simp_all add: extendBasis_def)
  also have "\<dots> = enclose_loop [c] [c] (Some c) 1"
    using enclose_loop_skip[of 0 "[c]" c "[c]"] w by simp
  also have "\<dots> = Some (Inr (Some c))"
    by (rule enclose_loop_done) simp
  finally show ?thesis by (simp add: enclose_def dict_values_def)
qed


lemma enclose_zero_weight_rev:
  "enclose rev [(''a'', Circle 1 0 1), (''b'', Circle 0 0 0)] = Some (Inr (Some (Circle 1 0 1)))"
proof -
  let ?A = "Circle 1 0 1" and ?Z = "Circle 0 0 0"
  let ?cs = "[?Z, ?A]"
  have aa: "enclosesWeak ?A ?A" and az: "enclosesWeak ?A ?Z" and zz: "enclosesWeak ?Z ?Z"
    and za: "\<not> enclosesWeak ?Z ?A"
    by (simp_all add: enclosesWeak_def)
  have "enclose_loop ?cs [] None 0 = enclose_loop ?cs [?Z] (Some ?Z) 0"
    by (rule enclose_loop_extend) (simp_all add: extendBasis_def)
  also have "\<dots> = enclose_loop ?cs [?Z] (Some ?Z) 1"
    using enclose_loop_skip[of 0 ?cs ?Z "[?Z]"] zz by simp
  also have "\<dots> = enclose_loop ?cs [?A] (Some ?A) 0"
    using za az by (intro enclose_loop_extend) (simp_all add: extendBasis_def)
  also have "\<dots> = enclose_loop ?cs [?A] (Some ?A) 1"
    using enclose_loop_skip[of 0 ?cs ?A "[?A]"] az by simp
  also have "\<dots> = enclose_loop ?cs [?A] (Some ?A) 2"
    using enclose_loop_skip[of 1 ?cs ?A "[?A]"] aa by (simp add: numeral_2_eq_2)
  also have "\<dots> = Some (Inr (Some ?A))"
    by (rule enclose_loop_done) simp
  finally show ?thesis by (simp add: enclose_def dict_values_def)
qed

lemma enclose_encloses_all_example:
  "enclose rev [(''a'', Circle 1 0 1), (''b'', Circle 0 0 0)] = Some (Inr (Some (Circle 1 0 1)))
   \<and> [(''a'', Circle 1 0 1), (''b'', Circle 0 0 0)] \<noteq> []
   \<and> mset (rev (dict_values [(''a'', Circle 1 0 1), (''b'', Circle 0 0 0)]))
        = mset (dict_values [(''a'', Circle 1 0 1), (''b'', Circle 0 0 0)])
   \<and> enclosesWeak (Circle 1 0 1) (Circle 1 0 1) \<and> enclosesWeak (Circle 1 0 1) (Circle 0 0 0)
   \<and> center_distance (Circle 1 0 1) (Circle 0 0 0) + cr (Circle 0 0 0) \<le> cr (Circle 1 0 1) + 1 / 10 ^ 6"
proof -
  have n: "[(''a'', Circle 1 0 1), (''b'', Circle 0 0 0)] \<noteq> []" by simp
  have m: "mset (rev (dict_values [(''a'', Circle 1 0 1), (''b'', Circle 0 0 0)]))
        = mset (dict_values [(''a'', Circle 1 0 1), (''b'', Circle 0 0 0)])"
    by simp
  from enclose_encloses_all[OF enclose_zero_weight_rev n m] show ?thesis
    using enclose_zero_weight_rev n m by (simp add: dict_values_def)
qed

section \<open>Candidates and the lead candidate\<close>

lemma distance_sym: "distance a b = distance b a"
proof -
  have "(cx b - cx a) * (cx b - cx a) = (cx a - cx b) * (cx a - cx b)"
    and "(cy b - cy a) * (cy b - cy a) = (cy a - cy b) * (cy a - cy b)"
    by (simp_all add: algebra_simps)
  then show ?thesis by (simp add: distance_def Let_def)
qed

lemma overlap_iff: "overlap placed cand \<longleftrightarrow> (\<exists>pc\<in>set placed. distance pc cand < 0)"
  by (induction placed) auto

lemma get_placement_candidates_no_error: "get_placement_candidates radius c1 c2 \<noteq> Inl e"
  using get_intersection_no_error
  by (auto simp: get_placement_candidates_def Let_def split: sum.splits prod.splits option.splits)

lemma get_placement_candidates_radius:
  assumes "get_placement_candidates radius c1 c2 = Inr (k1, k2)" "c \<in> set (present k1 @ present k2)"
  shows "cr c = radius"
  using assms
  by (auto simp: get_placement_candidates_def Let_def split: sum.splits prod.splits option.splits)

lemma pair_candidates_props:
  assumes "c \<in> set (pair_candidates radius placed c1 c2)"
  shows "cr c = radius \<and> \<not> overlap placed c"
proof (cases "get_placement_candidates radius c1 c2")
  case (Inl e)
  then show ?thesis using assms by (simp add: pair_candidates_def)
next
  case (Inr ks)
  obtain k1 k2 where ks: "ks = (k1, k2)" by (cases ks)
  from assms Inr ks have "c \<in> set (present k1 @ present k2)" "\<not> overlap placed c"
    by (auto simp: pair_candidates_def)
  then show ?thesis using get_placement_candidates_radius[OF Inr[unfolded ks]] by blast
qed

text \<open>A state of the selection loop is sound when its two components are set together.\<close>

lemma try_candidate_cases:
  "try_candidate sc placed c1 c2 st k = st
   \<or> (\<exists>cand. k = Some cand \<and> \<not> overlap placed cand
        \<and> try_candidate sc placed c1 c2 st k = (Some (sc cand placed (Some c1) (Some c2)), Some cand))"
  by (cases k; cases st) (auto simp: Let_def split: option.splits)

lemma try_candidate_keeps_some:
  "fst st \<noteq> None \<Longrightarrow> snd st \<noteq> None \<Longrightarrow>
     fst (try_candidate sc placed c1 c2 st k) \<noteq> None \<and> snd (try_candidate sc placed c1 c2 st k) \<noteq> None"
  using try_candidate_cases[of sc placed c1 c2 st k] by auto

lemma try_candidate_valid:
  "\<not> overlap placed cand \<Longrightarrow> (fst st = None) = (snd st = None) \<Longrightarrow>
     fst (try_candidate sc placed c1 c2 st (Some cand)) \<noteq> None
     \<and> snd (try_candidate sc placed c1 c2 st (Some cand)) \<noteq> None"
  by (cases st) (auto simp: Let_def split: option.splits)

lemma try_candidate_lead:
  assumes "snd (try_candidate sc placed c1 c2 st k) = Some c"
  shows "snd st = Some c \<or> (k = Some c \<and> \<not> overlap placed c)"
  using try_candidate_cases[of sc placed c1 c2 st k] assms by auto

lemma scan_pairs_lead:
  assumes "scan_pairs sc radius placed ps st = Inr st'" "snd st' = Some c"
  shows "snd st = Some c \<or> (\<exists>(c1, c2)\<in>set ps. c \<in> set (pair_candidates radius placed c1 c2))"
  using assms
proof (induction ps arbitrary: st)
  case Nil
  then show ?case by simp
next
  case (Cons pr ps)
  obtain c1 c2 where pr: "pr = (c1, c2)" by (cases pr)
  from Cons.prems(1) pr obtain k1 k2 where g: "get_placement_candidates radius c1 c2 = Inr (k1, k2)"
    and run: "scan_pairs sc radius placed ps
                (try_candidate sc placed c1 c2 (try_candidate sc placed c1 c2 st k1) k2) = Inr st'"
    by (auto split: sum.splits prod.splits)
  from Cons.IH[OF run Cons.prems(2)]
  consider "snd (try_candidate sc placed c1 c2 (try_candidate sc placed c1 c2 st k1) k2) = Some c"
    | "\<exists>(c1, c2)\<in>set ps. c \<in> set (pair_candidates radius placed c1 c2)" by blast
  then show ?case
  proof cases
    case 1
    then have "snd st = Some c \<or> (k1 = Some c \<and> \<not> overlap placed c) \<or> (k2 = Some c \<and> \<not> overlap placed c)"
      using try_candidate_lead by blast
    moreover have "c \<in> set (pair_candidates radius placed c1 c2)"
      if "(k1 = Some c \<and> \<not> overlap placed c) \<or> (k2 = Some c \<and> \<not> overlap placed c)"
      using that g by (auto simp: pair_candidates_def)
    ultimately show ?thesis using pr by auto
  next
    case 2
    then show ?thesis by auto
  qed
qed

lemma find_lead_props:
  assumes "find_lead_with sc radius placed = Inr (Some c)"
  shows "cr c = radius \<and> \<not> overlap placed c"
proof -
  from assms obtain st' where "scan_pairs sc radius placed (combinations2 placed) (None, None) = Inr st'"
    "snd st' = Some c"
    by (auto simp: find_lead_with_def split: sum.splits prod.splits)
  from scan_pairs_lead[OF this] show ?thesis
    using pair_candidates_props by auto
qed

lemma scan_pairs_no_candidate:
  assumes "\<forall>(c1, c2)\<in>set ps. pair_candidates radius placed c1 c2 = []"
  shows "scan_pairs sc radius placed ps st = Inr st"
  using assms
proof (induction ps)
  case Nil
  then show ?case by simp
next
  case (Cons pr ps)
  obtain c1 c2 where pr: "pr = (c1, c2)" by (cases pr)
  obtain k1 k2 where g: "get_placement_candidates radius c1 c2 = Inr (k1, k2)"
    using get_placement_candidates_no_error[of radius c1 c2]
    by (cases "get_placement_candidates radius c1 c2") auto
  have "pair_candidates radius placed c1 c2 = []" using Cons.prems pr by simp
  then have none: "\<forall>cand\<in>set (present k1 @ present k2). overlap placed cand"
    using g by (auto simp: pair_candidates_def filter_empty_conv)
  have t1: "try_candidate sc placed c1 c2 st k1 = st"
    using none by (cases k1; cases st) auto
  have t2: "try_candidate sc placed c1 c2 st k2 = st"
    using none by (cases k2; cases st) auto
  show ?case using Cons pr g t1 t2 by simp
qed

lemma scan_pairs_some:
  assumes "fst st \<noteq> None" "snd st \<noteq> None" "scan_pairs sc radius placed ps st = Inr st'"
  shows "snd st' \<noteq> None"
  using assms
proof (induction ps arbitrary: st)
  case Nil
  then show ?case by simp
next
  case (Cons pr ps)
  obtain c1 c2 where pr: "pr = (c1, c2)" by (cases pr)
  from Cons.prems(3) pr obtain k1 k2 where
    run: "scan_pairs sc radius placed ps
            (try_candidate sc placed c1 c2 (try_candidate sc placed c1 c2 st k1) k2) = Inr st'"
    by (auto split: sum.splits prod.splits)
  have "fst (try_candidate sc placed c1 c2 st k1) \<noteq> None \<and> snd (try_candidate sc placed c1 c2 st k1) \<noteq> None"
    using Cons.prems(1,2) by (rule try_candidate_keeps_some)
  then have "fst (try_candidate sc placed c1 c2 (try_candidate sc placed c1 c2 st k1) k2) \<noteq> None
           \<and> snd (try_candidate sc placed c1 c2 (try_candidate sc placed c1 c2 st k1) k2) \<noteq> None"
    using try_candidate_keeps_some by blast
  then show ?case using Cons.IH run by blast
qed

lemma scan_pairs_finds:
  assumes "(fst st = None) = (snd st = None)"
    "scan_pairs sc radius placed ps st = Inr st'" "snd st' = None"
  shows "\<forall>(c1, c2)\<in>set ps. pair_candidates radius placed c1 c2 = []"
  using assms
proof (induction ps arbitrary: st)
  case Nil
  then show ?case by simp
next
  case (Cons pr ps)
  obtain c1 c2 where pr: "pr = (c1, c2)" by (cases pr)
  from Cons.prems(2) pr obtain k1 k2 where g: "get_placement_candidates radius c1 c2 = Inr (k1, k2)"
    and run: "scan_pairs sc radius placed ps
                (try_candidate sc placed c1 c2 (try_candidate sc placed c1 c2 st k1) k2) = Inr st'"
    by (auto split: sum.splits prod.splits)
  let ?s1 = "try_candidate sc placed c1 c2 st k1"
  let ?s2 = "try_candidate sc placed c1 c2 ?s1 k2"
  have s2none: "snd ?s2 = None"
  proof (rule ccontr)
    assume a: "snd ?s2 \<noteq> None"
    have "fst ?s2 \<noteq> None"
      using try_candidate_cases[of sc placed c1 c2 ?s1 k2] try_candidate_cases[of sc placed c1 c2 st k1]
        a Cons.prems(1) by auto
    from scan_pairs_some[OF this a run] Cons.prems(3) show False by simp
  qed
  have s1none: "snd ?s1 = None"
    using try_candidate_cases[of sc placed c1 c2 ?s1 k2] s2none by auto
  have stnone: "snd st = None"
    using try_candidate_cases[of sc placed c1 c2 st k1] s1none by auto
  have e1: "(fst ?s1 = None) = (snd ?s1 = None)"
    using try_candidate_cases[of sc placed c1 c2 st k1] Cons.prems(1) by auto
  have e2: "(fst ?s2 = None) = (snd ?s2 = None)"
    using try_candidate_cases[of sc placed c1 c2 ?s1 k2] e1 by auto
  have o1: "overlap placed cand" if "k1 = Some cand" for cand
    using try_candidate_valid[of placed cand st sc c1 c2] Cons.prems(1) s1none that by auto
  have o2: "overlap placed cand" if "k2 = Some cand" for cand
    using try_candidate_valid[of placed cand ?s1 sc c1 c2] e1 s2none that by auto
  have here: "pair_candidates radius placed c1 c2 = []"
    using g o1 o2 by (cases k1; cases k2) (auto simp: pair_candidates_def)
  from Cons.IH[OF e2 run Cons.prems(3)] here pr show ?case by simp
qed

lemma find_lead_none_iff:
  "find_lead_with sc radius placed = Inr None \<longleftrightarrow> valid_candidates radius placed = []"
proof
  assume "find_lead_with sc radius placed = Inr None"
  then obtain st' where "scan_pairs sc radius placed (combinations2 placed) (None, None) = Inr st'"
    "snd st' = None"
    by (auto simp: find_lead_with_def split: sum.splits prod.splits)
  from scan_pairs_finds[OF _ this] show "valid_candidates radius placed = []"
    by (auto simp: valid_candidates_def)
next
  assume "valid_candidates radius placed = []"
  then have "\<forall>(c1, c2)\<in>set (combinations2 placed). pair_candidates radius placed c1 c2 = []"
    by (auto simp: valid_candidates_def)
  from scan_pairs_no_candidate[OF this] show "find_lead_with sc radius placed = Inr None"
    by (simp add: find_lead_with_def)
qed

section \<open>Invariants of the packing loop\<close>

text \<open>
  Every iteration that does not raise or stop appends one circle for a new label:
  the first at \<open>(radius, 0)\<close>, the second at \<open>(- radius, 0)\<close>, a later one of the
  given radius and overlapping no placed circle. A property of mappings that such
  an append keeps is kept by the loop.
\<close>

lemma pack_loop_invariant:
  assumes run: "pack_loop sc data placed rest = Inr placed'"
    and dist: "distinct (dict_keys placed @ rest)"
    and init: "I placed"
    and step: "\<And>p l w c. I p \<Longrightarrow> l \<notin> set (dict_keys p) \<Longrightarrow> map_of data l = Some w \<Longrightarrow> 0 \<le> w \<Longrightarrow>
                 (length p = 0 \<longrightarrow> c = Circle (sqrt w) 0 (sqrt w)) \<Longrightarrow>
                 (length p = 1 \<longrightarrow> c = Circle (- sqrt w) 0 (sqrt w)) \<Longrightarrow>
                 (2 \<le> length p \<longrightarrow> cr c = sqrt w \<and> \<not> overlap (dict_values p) c) \<Longrightarrow>
                 I (p @ [(l, c)])"
  shows "I placed'"
  using run dist init
proof (induction rest arbitrary: placed)
  case Nil
  then show ?case by simp
next
  case (Cons l rest)
  from Cons.prems(2) have new: "l \<notin> set (dict_keys placed)" by auto
  have next_state: "I placed'"
    if a: "pack_loop sc data (dict_set placed l c) rest = Inr placed'"
      and i: "I (placed @ [(l, c)])" for c
  proof -
    have d: "distinct (dict_keys (dict_set placed l c) @ rest)"
      using Cons.prems(2) by (simp add: dict_set_new[OF new] dict_keys_def)
    show ?thesis using Cons.IH[OF a d] i by (simp add: dict_set_new[OF new])
  qed
  show ?case
  proof (cases "map_of data l")
    case None
    then show ?thesis using Cons.prems(1) by simp
  next
    case (Some w)
    show ?thesis
    proof (cases "py_sqrt w")
      case (Inl e)
      then show ?thesis using Cons.prems(1) Some by simp
    next
      case (Inr radius)
      then have w: "0 \<le> w" and radius: "radius = sqrt w"
        by (auto simp: py_sqrt_def split: if_splits)
      show ?thesis
      proof (cases "length placed \<le> 1")
        case True
        let ?c = "Circle (if length placed = 0 then radius else - radius) 0 radius"
        have a: "pack_loop sc data (dict_set placed l ?c) rest = Inr placed'"
          using Cons.prems(1) Some Inr True by (simp add: Let_def)
        have "I (placed @ [(l, ?c)])"
          using True radius by (intro step[OF Cons.prems(3) new Some w]) auto
        then show ?thesis using a by (rule next_state[rotated])
      next
        case False
        show ?thesis
        proof (cases "find_lead_with sc radius (dict_values placed)")
          case (Inl e)
          then show ?thesis using Cons.prems(1) Some Inr False by simp
        next
          case r: (Inr lead)
          show ?thesis
          proof (cases lead)
            case None
            then have "placed' = placed" using Cons.prems(1) Some Inr False r by simp
            then show ?thesis using Cons.prems(3) by simp
          next
            case c: (Some c)
            then have a: "pack_loop sc data (dict_set placed l c) rest = Inr placed'"
              using Cons.prems(1) Some Inr False r by simp
            have "cr c = radius \<and> \<not> overlap (dict_values placed) c"
              using find_lead_props r c by blast
            then have "I (placed @ [(l, c)])"
              using False radius by (intro step[OF Cons.prems(3) new Some w]) auto
            then show ?thesis using a by (rule next_state[rotated])
          qed
        qed
      qed
    qed
  qed
qed

lemma weight_map_of: "map_of data l = Some w \<Longrightarrow> weight data l = w"
  by (simp add: weight_def)

lemma pack_loop_prefix:
  assumes "pack_loop sc data placed rest = Inr placed'" "distinct (dict_keys placed @ rest)"
  shows "\<exists>ext. placed' = placed @ ext"
  by (rule pack_loop_invariant[OF assms, where I = "\<lambda>p. \<exists>ext. p = placed @ ext"]) auto

lemma pack_loop_radius:
  assumes "pack_loop sc data placed rest = Inr placed'" "distinct (dict_keys placed @ rest)"
    and "\<forall>(l, c)\<in>set placed. 0 \<le> weight data l \<and> cr c = sqrt (weight data l)"
  shows "\<forall>(l, c)\<in>set placed'. 0 \<le> weight data l \<and> cr c = sqrt (weight data l)"
proof (rule pack_loop_invariant[OF assms(1,2),
         where I = "\<lambda>p. \<forall>(l, c)\<in>set p. 0 \<le> weight data l \<and> cr c = sqrt (weight data l)"])
  show "\<forall>(l, c)\<in>set placed. 0 \<le> weight data l \<and> cr c = sqrt (weight data l)"
    by (rule assms(3))
next
  fix p l w c
  assume i: "\<forall>(l, c)\<in>set p. 0 \<le> weight data l \<and> cr c = sqrt (weight data l)"
    and m: "map_of data l = Some w" and w: "0 \<le> w"
    and c0: "length p = 0 \<longrightarrow> c = Circle (sqrt w) 0 (sqrt w)"
    and c1: "length p = 1 \<longrightarrow> c = Circle (- sqrt w) 0 (sqrt w)"
    and c2: "2 \<le> length p \<longrightarrow> cr c = sqrt w \<and> \<not> overlap (dict_values p) c"
  have "length p = 0 \<or> length p = 1 \<or> 2 \<le> length p" by linarith
  then have "cr c = sqrt w" using c0 c1 c2 by auto
  then show "\<forall>(l, c)\<in>set (p @ [(l, c)]). 0 \<le> weight data l \<and> cr c = sqrt (weight data l)"
    using i w weight_map_of[OF m] by auto
qed

text \<open>The first circle touches the second: their centres are \<open>r0 + r1\<close> apart on the x axis.\<close>

lemma seed_tangent:
  assumes "0 \<le> r0" "0 \<le> r1"
  shows "distance (Circle r0 0 r0) (Circle (- r1) 0 r1) = 0"
proof -
  have "(- r1 - r0) * (- r1 - r0) = (r0 + r1) * (r0 + r1)" by (simp add: algebra_simps)
  then have "sqrt ((- r1 - r0) * (- r1 - r0)) = r0 + r1" using assms by simp
  then show ?thesis by (simp add: distance_def)
qed

lemma pack_loop_no_overlap:
  assumes "pack_loop sc data placed rest = Inr placed'" "distinct (dict_keys placed @ rest)"
    and "sorted_wrt (\<lambda>a b. 0 \<le> distance a b) (dict_values placed)"
    and "length placed = 1 \<longrightarrow> (\<exists>r0\<ge>0. dict_values placed = [Circle r0 0 r0])"
  shows "sorted_wrt (\<lambda>a b. 0 \<le> distance a b) (dict_values placed')"
proof -
  let ?I = "\<lambda>p :: (label \<times> circle) list. sorted_wrt (\<lambda>a b. 0 \<le> distance a b) (dict_values p)
               \<and> (length p = 1 \<longrightarrow> (\<exists>r0\<ge>0. dict_values p = [Circle r0 0 r0]))"
  have "?I placed'"
  proof (rule pack_loop_invariant[OF assms(1,2), where I = ?I])
    show "?I placed" using assms(3,4) by simp
  next
    fix p l w c
    assume i: "?I p" and w: "0 \<le> w"
      and c0: "length p = 0 \<longrightarrow> c = Circle (sqrt w) 0 (sqrt w)"
      and c1: "length p = 1 \<longrightarrow> c = Circle (- sqrt w) 0 (sqrt w)"
      and c2: "2 \<le> length p \<longrightarrow> cr c = sqrt w \<and> \<not> overlap (dict_values p) c"
    have away: "\<forall>pc\<in>set (dict_values p). 0 \<le> distance pc c"
    proof (cases "length p = 0")
      case True
      then show ?thesis by (simp add: dict_values_def)
    next
      case False
      show ?thesis
      proof (cases "length p = 1")
        case True
        then obtain r0 where "0 \<le> r0" "dict_values p = [Circle r0 0 r0]" using i by blast
        then show ?thesis using True c1 w seed_tangent[of r0 "sqrt w"] by simp
      next
        case f: False
        then have "2 \<le> length p" using False by linarith
        then have "\<not> overlap (dict_values p) c" using c2 by blast
        then show ?thesis by (auto simp: overlap_iff not_less)
      qed
    qed
    have s: "sorted_wrt (\<lambda>a b. 0 \<le> distance a b) (dict_values (p @ [(l, c)]))"
      using i away by (simp add: sorted_wrt_append dict_values_def)
    have "\<exists>r0\<ge>0. dict_values (p @ [(l, c)]) = [Circle r0 0 r0]" if "length (p @ [(l, c)]) = 1"
    proof -
      from that have "p = []" by simp
      then show ?thesis using c0 w by (simp add: dict_values_def)
    qed
    then show "?I (p @ [(l, c)])" using s by blast
  qed
  then show ?thesis by blast
qed

lemma pack_loop_first:
  "pack_loop sc data [] (l # rest) =
     (case map_of data l of
        None \<Rightarrow> Inl KeyError
      | Some w \<Rightarrow>
         (case py_sqrt w of
            Inl e \<Rightarrow> Inl e
          | Inr radius \<Rightarrow> pack_loop sc data [(l, Circle radius 0 radius)] rest))"
  by (simp split: option.splits sum.splits)

lemma pack_loop_second:
  "l \<noteq> l0 \<Longrightarrow> pack_loop sc data [(l0, c0)] (l # rest) =
     (case map_of data l of
        None \<Rightarrow> Inl KeyError
      | Some w \<Rightarrow>
         (case py_sqrt w of
            Inl e \<Rightarrow> Inl e
          | Inr radius \<Rightarrow> pack_loop sc data [(l0, c0), (l, Circle (- radius) 0 radius)] rest))"
  by (simp split: option.splits sum.splits)

text \<open>The first two labels of the processing order are always placed, as the two seed circles.\<close>

lemma pack_with_first_two:
  assumes d: "distinct (dict_keys data)" and run: "pack_with sc data = Inr placed"
    and ord: "pack_order data = l0 # l1 # rest"
  shows "\<exists>ext. placed = (l0, Circle (sqrt (weight data l0)) 0 (sqrt (weight data l0)))
                       # (l1, Circle (- sqrt (weight data l1)) 0 (sqrt (weight data l1))) # ext"
    and "0 \<le> weight data l0" and "0 \<le> weight data l1"
proof -
  have dist: "distinct (l0 # l1 # rest)" using pack_order_distinct[OF d] ord by simp
  from run ord have r0: "pack_loop sc data [] (l0 # l1 # rest) = Inr placed"
    by (simp add: pack_with_def)
  then obtain w0 where m0: "map_of data l0 = Some w0"
    unfolding pack_loop_first by (cases "map_of data l0") auto
  from r0 m0 have p0: "0 \<le> w0"
    unfolding pack_loop_first by (auto simp del: pack_loop.simps simp: py_sqrt_def split: if_splits)
  let ?c0 = "Circle (sqrt w0) 0 (sqrt w0)"
  from r0 m0 p0 have r1: "pack_loop sc data [(l0, ?c0)] (l1 # rest) = Inr placed"
    unfolding pack_loop_first by (simp del: pack_loop.simps add: py_sqrt_def)
  have ne: "l1 \<noteq> l0" using dist by auto
  note second = pack_loop_second[OF ne]
  from r1 obtain w1 where m1: "map_of data l1 = Some w1"
    unfolding second by (cases "map_of data l1") auto
  from r1 m1 have p1: "0 \<le> w1"
    unfolding second by (auto simp del: pack_loop.simps simp: py_sqrt_def split: if_splits)
  let ?c1 = "Circle (- sqrt w1) 0 (sqrt w1)"
  from r1 m1 p1 have r2: "pack_loop sc data [(l0, ?c0), (l1, ?c1)] rest = Inr placed"
    unfolding second by (simp del: pack_loop.simps add: py_sqrt_def)
  have "distinct (dict_keys [(l0, ?c0), (l1, ?c1)] @ rest)" using dist by (simp add: dict_keys_def)
  from pack_loop_prefix[OF r2 this] obtain ext where "placed = [(l0, ?c0), (l1, ?c1)] @ ext" by blast
  then show "\<exists>ext. placed = (l0, Circle (sqrt (weight data l0)) 0 (sqrt (weight data l0)))
                       # (l1, Circle (- sqrt (weight data l1)) 0 (sqrt (weight data l1))) # ext"
    using weight_map_of[OF m0] weight_map_of[OF m1] by simp
  show "0 \<le> weight data l0" using weight_map_of[OF m0] p0 by simp
  show "0 \<le> weight data l1" using weight_map_of[OF m1] p1 by simp
qed

lemma pack_order_length: "length (pack_order data) = length data"
  by (simp add: pack_order_def dict_keys_def)






section \<open>Properties of the packing\<close>

lemma pack_zero_example:
  "pack_A1_0 [(''a'', 0), (''b'', 0), (''c'', 0)] = Inr [(''a'', Circle 0 0 0), (''b'', Circle 0 0 0)]"
proof -
  have o: "pack_order [(''a'', 0), (''b'', 0), (''c'', 0)] = [''a'', ''b'', ''c'']"
    by (simp add: pack_order_def dict_keys_def weight_def)
  have "get_intersection (Circle 0 0 margin) (Circle 0 0 margin) = Inr (None, None)"
    by (simp add: get_intersection_def margin_def float_epsilon_def)
  then have "get_placement_candidates 0 (Circle 0 0 0) (Circle 0 0 0) = Inr (None, None)"
    by (simp add: get_placement_candidates_def)
  then have f: "find_lead_with get_hole_degree 0 [Circle 0 0 0, Circle 0 0 0] = Inr None"
    by (simp add: find_lead_with_def)
  show ?thesis
    by (simp add: pack_A1_0_def pack_with_def o py_sqrt_def dict_values_def f)
qed

text \<open>
  C8: when the input has at least two labels and the packer returns, every placed
  circle has the square root of its label's weight as radius; the first entry of the
  result is the first label of the processing order, whose weight is the largest,
  centred at \<open>(radius, 0)\<close>, and the second entry is the second label, centred at
  \<open>(- radius, 0)\<close>.
\<close>

theorem pack_radius_and_seed:
  assumes d: "distinct (dict_keys data)" and n: "2 \<le> length data"
    and run: "pack_A1_0 data = Inr placed"
  shows "(\<forall>(l, c)\<in>set placed. 0 \<le> weight data l \<and> cr c = sqrt (weight data l))
       \<and> 2 \<le> length placed
       \<and> placed ! 0 = (pack_order data ! 0,
                       Circle (sqrt (weight data (pack_order data ! 0))) 0
                              (sqrt (weight data (pack_order data ! 0))))
       \<and> placed ! 1 = (pack_order data ! 1,
                       Circle (- sqrt (weight data (pack_order data ! 1))) 0
                              (sqrt (weight data (pack_order data ! 1))))
       \<and> (\<forall>l\<in>set (dict_keys data). weight data l \<le> weight data (pack_order data ! 0))"
proof -
  have run': "pack_with get_hole_degree data = Inr placed" using run by (simp add: pack_A1_0_def)
  have "2 \<le> length (pack_order data)" using n by (simp add: pack_order_length)
  then obtain l0 l1 rest where ord: "pack_order data = l0 # l1 # rest"
    by (cases "pack_order data"; cases "tl (pack_order data)") auto
  from pack_with_first_two(1)[OF d run' ord] obtain ext where
    pl: "placed = (l0, Circle (sqrt (weight data l0)) 0 (sqrt (weight data l0)))
                  # (l1, Circle (- sqrt (weight data l1)) 0 (sqrt (weight data l1))) # ext"
    by blast
  have "distinct (dict_keys [] @ pack_order data)"
    using pack_order_distinct[OF d] by (simp add: dict_keys_def)
  from pack_loop_radius[OF run'[unfolded pack_with_def] this]
  have rad: "\<forall>(l, c)\<in>set placed. 0 \<le> weight data l \<and> cr c = sqrt (weight data l)" by simp
  have mx: "\<forall>l\<in>set (dict_keys data). weight data l \<le> weight data (pack_order data ! 0)"
  proof
    fix l assume "l \<in> set (dict_keys data)"
    then have "l \<in> set (pack_order data)" by (simp add: pack_order_def)
    then obtain j where j: "j < length (pack_order data)" "pack_order data ! j = l"
      by (auto simp: in_set_conv_nth)
    show "weight data l \<le> weight data (pack_order data ! 0)"
    proof (cases "j = 0")
      case True
      then show ?thesis using j by simp
    next
      case False
      then have "0 < j" by simp
      from pack_order_descending[OF this j(1)] j(2) show ?thesis by simp
    qed
  qed
  show ?thesis using pl ord rad mx by simp
qed

theorem pack_radius_and_seed_witness:
  "distinct (dict_keys [(''a'', 1 :: real), (''b'', 4)])
   \<and> 2 \<le> length [(''a'', 1 :: real), (''b'', 4)]
   \<and> pack_A1_0 [(''a'', 1), (''b'', 4)] = Inr [(''b'', Circle 2 0 2), (''a'', Circle (- 1) 0 1)]
   \<and> [(''b'', Circle 2 0 2), (''a'', Circle (- 1) 0 1)] ! 0
        = (pack_order [(''a'', 1), (''b'', 4)] ! 0,
           Circle (sqrt (weight [(''a'', 1), (''b'', 4)] (pack_order [(''a'', 1), (''b'', 4)] ! 0))) 0
                  (sqrt (weight [(''a'', 1), (''b'', 4)] (pack_order [(''a'', 1), (''b'', 4)] ! 0))))"
proof -
  have d: "distinct (dict_keys [(''a'', 1 :: real), (''b'', 4)])" by (simp add: dict_keys_def)
  have n: "2 \<le> length [(''a'', 1 :: real), (''b'', 4)]" by simp
  from pack_radius_and_seed[OF d n pack_example] d n pack_example show ?thesis by blast
qed

text \<open>
  In exact arithmetic, in the mapping that \<open>pack_A1_0\<close> returns the signed gap
  between any two placed circles is at least 0, and the first two circles are tangent
  (gap 0); a candidate with a negative gap to some placed circle never changes the
  selection. The first two facts are properties of the model over the reals only: on
  doubles \<open>distance\<close> of the two seeds can be negative, and rounding in the candidate
  positions can leave later circles overlapping by more than the margin.
\<close>

lemma pack_no_overlap:
  assumes d: "distinct (dict_keys data)" and run: "pack_A1_0 data = Inr placed"
  shows "(\<forall>i j. i < length placed \<and> j < length placed \<and> i \<noteq> j \<longrightarrow>
             0 \<le> distance (snd (placed ! i)) (snd (placed ! j)))
       \<and> (2 \<le> length placed \<longrightarrow> distance (snd (placed ! 0)) (snd (placed ! 1)) = 0)
       \<and> (\<forall>vals cand c1 c2 st. (\<exists>pc\<in>set vals. distance pc cand < 0) \<longrightarrow>
             try_candidate get_hole_degree vals c1 c2 st (Some cand) = st)"
proof (intro conjI allI impI)
  have run': "pack_with get_hole_degree data = Inr placed" using run by (simp add: pack_A1_0_def)
  have dist: "distinct (dict_keys [] @ pack_order data)"
    using pack_order_distinct[OF d] by (simp add: dict_keys_def)
  have s: "sorted_wrt (\<lambda>a b. 0 \<le> distance a b) (dict_values placed)"
    by (rule pack_loop_no_overlap[OF run'[unfolded pack_with_def] dist]) (simp_all add: dict_values_def)
  {
    fix i j assume a: "i < length placed \<and> j < length placed \<and> i \<noteq> j"
    have lt: "0 \<le> distance (dict_values placed ! i') (dict_values placed ! j')"
      if "i' < j'" "j' < length placed" for i' j'
      using s that by (simp add: sorted_wrt_iff_nth_less)
    have "0 \<le> distance (dict_values placed ! i) (dict_values placed ! j)"
    proof (cases "i < j")
      case True
      then show ?thesis using lt a by blast
    next
      case False
      then have "j < i" using a by linarith
      then have "0 \<le> distance (dict_values placed ! j) (dict_values placed ! i)" using lt a by blast
      then show ?thesis by (simp add: distance_sym)
    qed
    then show "0 \<le> distance (snd (placed ! i)) (snd (placed ! j))"
      using a by (simp add: dict_values_def)
  }
  {
    assume two: "2 \<le> length placed"
    have "length placed = min (length placed) (length (pack_order data))"
      using arg_cong[OF pack_with_keys[OF d run'], of length] by simp
    then have "length placed \<le> length (pack_order data)" by linarith
    then have "2 \<le> length (pack_order data)" using two by linarith
    then obtain l0 l1 rest where ord: "pack_order data = l0 # l1 # rest"
      by (cases "pack_order data"; cases "tl (pack_order data)") auto
    from pack_with_first_two(1)[OF d run' ord] obtain ext where
      "placed = (l0, Circle (sqrt (weight data l0)) 0 (sqrt (weight data l0)))
                  # (l1, Circle (- sqrt (weight data l1)) 0 (sqrt (weight data l1))) # ext"
      by blast
    then show "distance (snd (placed ! 0)) (snd (placed ! 1)) = 0"
      using pack_with_first_two(2,3)[OF d run' ord] by (simp add: seed_tangent)
  }
  {
    fix vals cand c1 c2 and st :: "real option \<times> circle option"
    assume "\<exists>pc\<in>set vals. distance pc cand < 0"
    then have "overlap vals cand" by (simp add: overlap_iff)
    then show "try_candidate get_hole_degree vals c1 c2 st (Some cand) = st"
      by (cases st) simp
  }
qed

lemma pack_no_overlap_example:
  "distinct (dict_keys [(''a'', 1 :: real), (''b'', 4)])
   \<and> pack_A1_0 [(''a'', 1), (''b'', 4)] = Inr [(''b'', Circle 2 0 2), (''a'', Circle (- 1) 0 1)]
   \<and> distance (Circle 2 0 2) (Circle (- 1) 0 1) = 0
   \<and> (\<exists>pc\<in>set [Circle 2 0 2]. distance pc (Circle 1 0 1) < 0)
   \<and> try_candidate get_hole_degree [Circle 2 0 2] (Circle 2 0 2) (Circle 2 0 2) (None, None)
        (Some (Circle 1 0 1)) = (None, None)"
proof -
  have d: "distinct (dict_keys [(''a'', 1 :: real), (''b'', 4)])" by (simp add: dict_keys_def)
  have l: "2 \<le> length [(''b'', Circle 2 0 2), (''a'', Circle (- 1) 0 1)]" by simp
  have o: "\<exists>pc\<in>set [Circle 2 0 2]. distance pc (Circle 1 0 1) < 0"
    by (simp add: distance_def)
  from pack_no_overlap[OF d pack_example] l o d pack_example show ?thesis
    by (auto simp del: try_candidate.simps)
qed

text \<open>
  C6: when the packer reaches a label of non-negative weight with at least two
  circles placed and no candidate of any pair of placed circles is free of overlap,
  it returns the mapping built so far: no error, and neither this label nor a later
  one is placed. Such a run exists: three labels of weight 0 give a mapping of two.
\<close>

theorem pack_stops_without_candidate:
  "(map_of data l = Some w \<and> 0 \<le> w \<and> 2 \<le> length placed_circles
      \<and> valid_candidates (sqrt w) (dict_values placed_circles) = []
      \<longrightarrow> pack_loop get_hole_degree data placed_circles (l # rest) = Inr placed_circles)
   \<and> (\<exists>data placed. distinct (dict_keys data) \<and> pack_A1_0 data = Inr placed
         \<and> length placed < length data)"
proof (intro conjI impI)
  assume a: "map_of data l = Some w \<and> 0 \<le> w \<and> 2 \<le> length placed_circles
      \<and> valid_candidates (sqrt w) (dict_values placed_circles) = []"
  then have "find_lead_with get_hole_degree (sqrt w) (dict_values placed_circles) = Inr None"
    by (simp add: find_lead_none_iff)
  then show "pack_loop get_hole_degree data placed_circles (l # rest) = Inr placed_circles"
    using a by (simp add: py_sqrt_def)
next
  have "distinct (dict_keys [(''a'', 0 :: real), (''b'', 0), (''c'', 0)])"
    by (simp add: dict_keys_def)
  then show "\<exists>data placed. distinct (dict_keys data) \<and> pack_A1_0 data = Inr placed
         \<and> length placed < length data"
    using pack_zero_example by (intro exI[of _ "[(''a'', 0), (''b'', 0), (''c'', 0)]"]
        exI[of _ "[(''a'', Circle 0 0 0), (''b'', Circle 0 0 0)]"]) simp
qed

theorem pack_stops_without_candidate_witness:
  "map_of [(''a'', 0), (''b'', 0), (''c'', 0 :: real)] ''c'' = Some 0
   \<and> valid_candidates (sqrt 0) (dict_values [(''a'', Circle 0 0 0), (''b'', Circle 0 0 0)]) = []
   \<and> pack_loop get_hole_degree [(''a'', 0), (''b'', 0), (''c'', 0)]
        [(''a'', Circle 0 0 0), (''b'', Circle 0 0 0)] [''c'']
       = Inr [(''a'', Circle 0 0 0), (''b'', Circle 0 0 0)]"
proof -
  have m: "map_of [(''a'', 0), (''b'', 0), (''c'', 0 :: real)] ''c'' = Some 0" by simp
  have "get_intersection (Circle 0 0 margin) (Circle 0 0 margin) = Inr (None, None)"
    by (simp add: get_intersection_def margin_def float_epsilon_def)
  then have "get_placement_candidates 0 (Circle 0 0 0) (Circle 0 0 0) = Inr (None, None)"
    by (simp add: get_placement_candidates_def)
  then have v: "valid_candidates (sqrt 0) (dict_values [(''a'', Circle 0 0 0), (''b'', Circle 0 0 0)]) = []"
    by (simp add: valid_candidates_def pair_candidates_def dict_values_def)
  have l: "2 \<le> length [(''a'', Circle 0 0 0), (''b'', Circle 0 0 0)]" by simp
  from pack_stops_without_candidate[of "[(''a'', 0), (''b'', 0), (''c'', 0)]" "''c''" 0
        "[(''a'', Circle 0 0 0), (''b'', Circle 0 0 0)]" "[]"] m v l
  show ?thesis by (simp del: pack_loop.simps)
qed

section \<open>Scaling and the entry point\<close>

lemma scale_loop_map:
  assumes "r \<noteq> 0" "distinct (dict_keys scaled @ dict_keys circles)"
  shows "scale_loop circles x y r scaled =
           Inr (scaled @ map (\<lambda>(l, c). (l, Circle ((cx c - x) / r) ((cy c - y) / r) (cr c / r))) circles)"
  using assms(2)
proof (induction circles arbitrary: scaled)
  case Nil
  then show ?case by simp
next
  case (Cons lc circles)
  obtain l c where lc: "lc = (l, c)" by (cases lc)
  have new: "l \<notin> set (dict_keys scaled)" using Cons.prems lc by (auto simp: dict_keys_def)
  let ?c = "Circle ((cx c - x) / r) ((cy c - y) / r) (cr c / r)"
  have "distinct (dict_keys (scaled @ [(l, ?c)]) @ dict_keys circles)"
    using Cons.prems lc by (auto simp: dict_keys_def)
  from Cons.IH[OF this] show ?case
    using assms(1) lc by (simp add: dict_set_new[OF new])
qed

lemma scale_zero: "scale circles x y 0 = (if circles = [] then Inr [] else Inl ZeroDivisionError)"
  by (cases circles) (auto simp: scale_def)

lemma scale_keys:
  assumes "distinct (dict_keys circles)" "scale circles x y r = Inr scaled"
  shows "dict_keys scaled = dict_keys circles"
proof (cases "r = 0")
  case True
  then show ?thesis using assms(2) by (auto simp: scale_zero split: if_splits)
next
  case False
  have "distinct (dict_keys [] @ dict_keys circles)" using assms(1) by (simp add: dict_keys_def)
  from scale_loop_map[OF False this, of x y] assms(2) show ?thesis
    by (auto simp: scale_def dict_keys_def)
qed

lemma circlify_Inr:
  assumes "circlify shuffle data with_unit = Some (Inr out)"
  shows "\<exists>packed e scaled. pack_A1_0 data = Inr packed
           \<and> enclose shuffle packed = Some (Inr (Some e))
           \<and> scale packed (cx e) (cy e) (cr e) = Inr scaled
           \<and> out = (if with_unit then dict_set scaled [] (Circle 0 0 1) else scaled)"
  using assms by (auto simp: circlify_def split: sum.splits option.splits)

lemma pack_keys_subset:
  assumes "distinct (dict_keys data)" "pack_A1_0 data = Inr packed"
  shows "distinct (dict_keys packed)" and "set (dict_keys packed) \<subseteq> set (dict_keys data)"
proof -
  have k: "dict_keys packed = take (length packed) (pack_order data)"
    using pack_with_keys[OF assms(1)] assms(2) by (simp add: pack_A1_0_def)
  show "distinct (dict_keys packed)"
    unfolding k using pack_order_distinct[OF assms(1)] by (rule distinct_take)
  have "set (pack_order data) = set (dict_keys data)" by (simp add: pack_order_def)
  then show "set (dict_keys packed) \<subseteq> set (dict_keys data)"
    unfolding k using set_take_subset by fastforce
qed




lemma circlify_single:
  "circlify (\<lambda>cs. cs) [(''a'', 4)] True = Some (Inr [(''a'', Circle 0 0 1), ([], Circle 0 0 1)])"
proof -
  have "pack_order [(''a'', 4)] = [''a'']"
    by (simp add: pack_order_def dict_keys_def)
  then have p: "pack_A1_0 [(''a'', 4)] = Inr [(''a'', Circle 2 0 2)]"
    by (simp add: pack_A1_0_def pack_with_def py_sqrt_def)
  have s: "scale [(''a'', Circle 2 0 2)] 2 0 2 = Inr [(''a'', Circle 0 0 1)]"
    by (simp add: scale_def)
  show ?thesis by (simp add: circlify_def p enclose_single s)
qed

text \<open>A mapping whose only label is the empty string.\<close>

lemma circlify_empty_label:
  "circlify (\<lambda>cs. cs) [([], 4)] True = Some (Inr [([], Circle 0 0 1)])"
  "circlify (\<lambda>cs. cs) [([], 4)] False = Some (Inr [([], Circle 0 0 1)])"
proof -
  have "pack_order [([], 4)] = [[]]"
    by (simp add: pack_order_def dict_keys_def)
  then have p: "pack_A1_0 [([], 4)] = Inr [([], Circle 2 0 2)]"
    by (simp add: pack_A1_0_def pack_with_def py_sqrt_def)
  have s: "scale [([], Circle 2 0 2)] 2 0 2 = Inr [([], Circle 0 0 1)]"
    by (simp add: scale_def)
  show "circlify (\<lambda>cs. cs) [([], 4)] True = Some (Inr [([], Circle 0 0 1)])"
    by (simp add: circlify_def p enclose_single s)
  show "circlify (\<lambda>cs. cs) [([], 4)] False = Some (Inr [([], Circle 0 0 1)])"
    by (simp add: circlify_def p enclose_single s)
qed

text \<open>A single label of weight 0: the enclosure has radius 0 and \<open>scale\<close> divides by it.\<close>

lemma circlify_zero_only:
  "circlify (\<lambda>cs. cs) [(''a'', 0)] False = Some (Inl ZeroDivisionError)"
proof -
  have "pack_order [(''a'', 0)] = [''a'']"
    by (simp add: pack_order_def dict_keys_def)
  then have p: "pack_A1_0 [(''a'', 0)] = Inr [(''a'', Circle 0 0 0)]"
    by (simp add: pack_A1_0_def pack_with_def py_sqrt_def)
  show ?thesis by (simp add: circlify_def p enclose_single scale_zero)
qed


text \<open>
  C9, as stated: \<open>scale\<close> returns the mapping of the scaled circles for any enclosing
  circle, and \<open>circlify\<close> adds exactly one entry when \<open>with_unit\<close> is true. It fails
  for an enclosing circle of radius 0, where \<open>scale\<close> raises \<open>ZeroDivisionError\<close>,
  and for an input whose only label is the empty string: \<open>circlify\<close> returns the
  same one-entry mapping whether \<open>with_unit\<close> is true or false.
\<close>

theorem scale_and_unit_counterexample:
  "scale [(''a'', Circle 1 0 1)] 0 0 0 = Inl ZeroDivisionError
   \<and> circlify (\<lambda>cs. cs) [([], 4)] True = Some (Inr [([], Circle 0 0 1)])
   \<and> circlify (\<lambda>cs. cs) [([], 4)] False = Some (Inr [([], Circle 0 0 1)])"
  by (simp add: scale_zero circlify_empty_label)

text \<open>
  C9, amended: for a non-zero radius \<open>r\<close>, \<open>scale\<close> maps every entry
  \<open>(l, (x_c, y_c, r_c))\<close> of a dict to \<open>(l, ((x_c - x) / r, (y_c - y) / r, r_c / r))\<close>,
  keeping the keys and their order. When \<open>circlify\<close> returns, its result is the
  scaled packing, in which the empty string is assigned the circle \<open>(0, 0, 1)\<close>
  exactly when \<open>with_unit\<close> is true. The assignment appends one entry when the empty
  string is not a label of the input; when the scaled packing has it as a label, the
  assignment replaces that entry and the keys stay the same.
\<close>

theorem scale_and_unit:
  "(r \<noteq> 0 \<and> distinct (dict_keys circles) \<longrightarrow>
      scale circles x y r
        = Inr (map (\<lambda>(l, c). (l, Circle ((cx c - x) / r) ((cy c - y) / r) (cr c / r))) circles)
      \<and> (\<forall>scaled. scale circles x y r = Inr scaled \<longrightarrow> dict_keys scaled = dict_keys circles))
   \<and> (distinct (dict_keys data) \<and> circlify shuffle data with_unit = Some (Inr out) \<longrightarrow>
      (\<exists>packed e scaled. pack_A1_0 data = Inr packed
          \<and> enclose shuffle packed = Some (Inr (Some e))
          \<and> scale packed (cx e) (cy e) (cr e) = Inr scaled
          \<and> dict_keys scaled = dict_keys packed
          \<and> out = (if with_unit then dict_set scaled [] (Circle 0 0 1) else scaled)
          \<and> ([] \<notin> set (dict_keys data) \<longrightarrow>
                out = (if with_unit then scaled @ [([], Circle 0 0 1)] else scaled))
          \<and> ([] \<in> set (dict_keys scaled) \<longrightarrow> dict_keys out = dict_keys scaled)))"
proof (intro conjI impI)
  assume a: "r \<noteq> 0 \<and> distinct (dict_keys circles)"
  then have "distinct (dict_keys [] @ dict_keys circles)" by (simp add: dict_keys_def)
  from scale_loop_map[OF _ this, of r x y] a
  show "scale circles x y r
        = Inr (map (\<lambda>(l, c). (l, Circle ((cx c - x) / r) ((cy c - y) / r) (cr c / r))) circles)"
    by (simp add: scale_def)
  show "\<forall>scaled. scale circles x y r = Inr scaled \<longrightarrow> dict_keys scaled = dict_keys circles"
    using a scale_keys by blast
next
  assume a: "distinct (dict_keys data) \<and> circlify shuffle data with_unit = Some (Inr out)"
  then obtain packed e scaled where p: "pack_A1_0 data = Inr packed"
    and e: "enclose shuffle packed = Some (Inr (Some e))"
    and s: "scale packed (cx e) (cy e) (cr e) = Inr scaled"
    and out: "out = (if with_unit then dict_set scaled [] (Circle 0 0 1) else scaled)"
    using circlify_Inr by blast
  have k: "dict_keys scaled = dict_keys packed"
    using scale_keys[OF pack_keys_subset(1) s] a p by blast
  have app: "out = (if with_unit then scaled @ [([], Circle 0 0 1)] else scaled)"
    if "[] \<notin> set (dict_keys data)"
  proof -
    have "[] \<notin> set (dict_keys scaled)"
      using that k pack_keys_subset(2)[of data packed] a p by auto
    then have "dict_set scaled [] (Circle 0 0 1) = scaled @ [([], Circle 0 0 1)]"
      by (rule dict_set_new)
    then show ?thesis using out by simp
  qed
  have same: "dict_keys out = dict_keys scaled" if "[] \<in> set (dict_keys scaled)"
    using that out by (simp add: dict_set_keys_list)
  show "\<exists>packed e scaled. pack_A1_0 data = Inr packed
          \<and> enclose shuffle packed = Some (Inr (Some e))
          \<and> scale packed (cx e) (cy e) (cr e) = Inr scaled
          \<and> dict_keys scaled = dict_keys packed
          \<and> out = (if with_unit then dict_set scaled [] (Circle 0 0 1) else scaled)
          \<and> ([] \<notin> set (dict_keys data) \<longrightarrow>
                out = (if with_unit then scaled @ [([], Circle 0 0 1)] else scaled))
          \<and> ([] \<in> set (dict_keys scaled) \<longrightarrow> dict_keys out = dict_keys scaled)"
    using p e s k out app same by blast
qed

theorem scale_and_unit_witness:
  "scale [(''a'', Circle 2 0 2)] 2 0 2 = Inr [(''a'', Circle 0 0 1)]
   \<and> distinct (dict_keys [(''a'', 4 :: real)]) \<and> [] \<notin> set (dict_keys [(''a'', 4 :: real)])
   \<and> circlify (\<lambda>cs. cs) [(''a'', 4)] True = Some (Inr [(''a'', Circle 0 0 1), ([], Circle 0 0 1)])
   \<and> (\<exists>scaled. [(''a'', Circle 0 0 1), ([], Circle 0 0 1)] = scaled @ [([], Circle 0 0 1)])
   \<and> distinct (dict_keys [([] :: label, 4 :: real)])
   \<and> circlify (\<lambda>cs. cs) [([], 4)] True = Some (Inr [([], Circle 0 0 1)])
   \<and> (\<exists>scaled :: (label \<times> circle) list. [] \<in> set (dict_keys scaled)
         \<and> dict_keys [([] :: label, Circle 0 0 1)] = dict_keys scaled)"
proof -
  have d: "distinct (dict_keys [(''a'', 4 :: real)])" and n: "[] \<notin> set (dict_keys [(''a'', 4 :: real)])"
    by (simp_all add: dict_keys_def)
  have d': "(2 :: real) \<noteq> 0 \<and> distinct (dict_keys [(''a'', Circle 2 0 2)])"
    by (simp add: dict_keys_def)
  have de: "distinct (dict_keys [([] :: label, 4 :: real)])" by (simp add: dict_keys_def)
  note t = scale_and_unit[of 2 "[(''a'', Circle 2 0 2)]" 2 0 "[(''a'', 4)]" "\<lambda>cs. cs" True
             "[(''a'', Circle 0 0 1), ([], Circle 0 0 1)]"]
  note u = scale_and_unit[of 2 "[(''a'', Circle 2 0 2)]" 2 0 "[([], 4)]" "\<lambda>cs. cs" True
             "[([], Circle 0 0 1)]"]
  from t d' have 1: "scale [(''a'', Circle 2 0 2)] 2 0 2 = Inr [(''a'', Circle 0 0 1)]"
    by simp
  from t d n circlify_single
  have 2: "\<exists>scaled. [(''a'', Circle 0 0 1), ([], Circle 0 0 1)] = scaled @ [([], Circle 0 0 1)]"
    by auto
  from u de circlify_empty_label(1)
  obtain packed scaled where pk: "pack_A1_0 [([], 4)] = Inr packed"
    and ks: "dict_keys scaled = dict_keys packed"
    and o: "[([] :: label, Circle 0 0 1)] = (if True then dict_set scaled [] (Circle 0 0 1) else scaled)"
    and sm: "[] \<in> set (dict_keys scaled) \<longrightarrow> dict_keys [([] :: label, Circle 0 0 1)] = dict_keys scaled"
    by blast
  have "pack_order [([], 4)] = [[]]" by (simp add: pack_order_def dict_keys_def)
  then have "pack_A1_0 [([], 4)] = Inr [([], Circle 2 0 2)]"
    by (simp add: pack_A1_0_def pack_with_def py_sqrt_def)
  then have "[] \<in> set (dict_keys scaled)" using pk ks by (simp add: dict_keys_def)
  then have 3: "\<exists>scaled :: (label \<times> circle) list. [] \<in> set (dict_keys scaled)
         \<and> dict_keys [([] :: label, Circle 0 0 1)] = dict_keys scaled"
    using sm by blast
  show ?thesis using 1 2 3 d n de circlify_single circlify_empty_label(1) by blast
qed





end
